theory Spec2Isabelle
  imports Main "HOL-Library.Word"
begin

unbundle bit_operations_syntax

section \<open>Data model\<close>

text \<open>
  A shallow embedding of \<^verbatim>\<open>src/cstruct/cstruct.c\<close>.

  \<^item> A byte is an \<open>8 word\<close>; \<open>size_t\<close> is a \<open>32 word\<close> (the width of the ARM, ESP32 and
    RP2040 Arduino cores), so that \<open>tok.size * tok.count\<close> and the decimal accumulation
    of \<open>parse_token\<close> wrap around as they do in C.
  \<^item> Caller memory reachable through a pointer is a \<open>byte list\<close>: the bytes of the
    object the pointer points to. A pointer into the destination or source buffer is
    a \<open>nat\<close> offset from its start.
  \<^item> \<open>CSTRUCT_IS_BIG_ENDIAN\<close> is fixed by the compiler for the target; it is the
    parameter \<open>be\<close> of every function that depends on it.
  \<^item> Undefined behaviour of the C program (an access outside an object, a \<open>va_arg\<close>
    that does not match the argument passed, a loop that never ends) is the \<open>Inl\<close>
    branch of the result. Returning \<open>NULL\<close> is not a fault: it is the result \<open>None\<close>,
    next to the memory as the call left it.
  \<^item> A format string is a list of characters without NUL; the end of the list is the
    terminator.
\<close>

type_synonym byte = "8 word"
type_synonym size_t = "32 word"

datatype fault = OutOfBounds | BadArgument | NoReturn

datatype cstruct_type_t =
    CSTRUCT_TYPE_INT8 | CSTRUCT_TYPE_UINT8
  | CSTRUCT_TYPE_INT16 | CSTRUCT_TYPE_UINT16
  | CSTRUCT_TYPE_INT32 | CSTRUCT_TYPE_UINT32
  | CSTRUCT_TYPE_INT64 | CSTRUCT_TYPE_UINT64
  | CSTRUCT_TYPE_INT128 | CSTRUCT_TYPE_UINT128
  | CSTRUCT_TYPE_FLOAT16 | CSTRUCT_TYPE_FLOAT32 | CSTRUCT_TYPE_FLOAT64
  | CSTRUCT_TYPE_PADDING | CSTRUCT_TYPE_STRING

datatype cstruct_endian_t = CSTRUCT_ENDIAN_LITTLE | CSTRUCT_ENDIAN_BIG

record cstruct_token_t =
  tok_type :: cstruct_type_t
  tok_endian :: cstruct_endian_t
  tok_size :: size_t
  tok_count :: size_t

text \<open>
  One slot of the variable argument list. \<open>Int_arg\<close> is a value read with
  \<open>va_arg(args, int)\<close>, \<open>Int32_arg\<close> and \<open>Int64_arg\<close> one read as \<open>(u)int32_t\<close> and
  \<open>(u)int64_t\<close>, \<open>Double_arg\<close> the bit pattern of a \<open>double\<close>. \<open>Float_arg\<close> is the
  binary32 pattern that \<open>(float)va_arg(args, double)\<close> yields: the promotion of the
  caller's \<open>float\<close> and the cast back are C's own conversions and are not modelled.
  \<open>Ptr_arg\<close> is a pointer, given by the bytes of the object it points to.
\<close>

datatype arg =
    Int_arg int
  | Int32_arg "32 word"
  | Int64_arg "64 word"
  | Float_arg "32 word"
  | Double_arg "64 word"
  | Ptr_arg "byte list"

section \<open>Object representation\<close>

text \<open>
  The bytes of an integer in memory: least significant byte first on a little-endian
  host, reversed on a big-endian one. \<open>obj_repr be n v\<close> is what \<open>&value\<close> points to
  for an \<open>n\<close>-byte \<open>value\<close>; \<open>obj_value\<close> reads such an object back.
\<close>

fun le_bytes :: "nat \<Rightarrow> 'a::len word \<Rightarrow> byte list" where
  "le_bytes 0 w = []"
| "le_bytes (Suc n) w = ucast w # le_bytes n (drop_bit 8 w)"

fun le_word :: "byte list \<Rightarrow> 'a::len word" where
  "le_word [] = 0"
| "le_word (b # bs) = ucast b OR push_bit 8 (le_word bs)"

definition obj_repr :: "bool \<Rightarrow> nat \<Rightarrow> 'a::len word \<Rightarrow> byte list" where
  "obj_repr be n v = (if be then rev (le_bytes n v) else le_bytes n v)"

definition obj_value :: "bool \<Rightarrow> byte list \<Rightarrow> 'a::len word" where
  "obj_value be bs = le_word (if be then rev bs else bs)"

text \<open>An object that is wide enough holds its value, on either host.\<close>

lemma le_word_le_bytes:
  "(le_word (le_bytes n w) :: 'a::len word) = take_bit (8 * n) w"
proof (induction n arbitrary: w)
  case 0
  then show ?case by simp
next
  case (Suc n)
  have "(ucast (ucast w :: byte) :: 'a word) OR push_bit 8 (take_bit (8 * n) (drop_bit 8 w))
          = take_bit (8 * Suc n) w"
    by (rule bit_eqI) (auto simp: bit_simps)
  with Suc show ?case by simp
qed

lemma obj_value_obj_repr:
  "LENGTH('a::len) \<le> 8 * n \<Longrightarrow> obj_value be (obj_repr be n (w :: 'a word)) = w"
  by (simp add: obj_value_def obj_repr_def le_word_le_bytes take_bit_word_eq_self)

section \<open>Endian codec\<close>

text \<open>
  \<open>cstruct_store_fw(dst, src, size)\<close>: \<open>for (i = 0; i < size; ++i) dst[i] = s[i]\<close>,
  with \<open>dst\<close> the offset \<open>out\<close> into \<open>mem\<close>. The accesses stay inside both objects or
  the behaviour is undefined.
\<close>

definition cstruct_store_fw :: "byte list \<Rightarrow> nat \<Rightarrow> byte list \<Rightarrow> nat \<Rightarrow> fault + byte list" where
  "cstruct_store_fw mem out s n =
     (if out + n \<le> length mem \<and> n \<le> length s
      then Inr (fold (\<lambda>i m. m[out + i := s ! i]) [0..<n] mem)
      else Inl OutOfBounds)"

definition cstruct_store_rev :: "byte list \<Rightarrow> nat \<Rightarrow> byte list \<Rightarrow> nat \<Rightarrow> fault + byte list" where
  "cstruct_store_rev mem out s n =
     (if out + n \<le> length mem \<and> n \<le> length s
      then Inr (fold (\<lambda>i m. m[out + i := s ! (n - 1 - i)]) [0..<n] mem)
      else Inl OutOfBounds)"

definition cstruct_store_le :: "bool \<Rightarrow> byte list \<Rightarrow> nat \<Rightarrow> byte list \<Rightarrow> nat \<Rightarrow> fault + byte list" where
  "cstruct_store_le be mem out s n =
     (if be then cstruct_store_rev mem out s n else cstruct_store_fw mem out s n)"

definition cstruct_store_be :: "bool \<Rightarrow> byte list \<Rightarrow> nat \<Rightarrow> byte list \<Rightarrow> nat \<Rightarrow> fault + byte list" where
  "cstruct_store_be be mem out s n =
     (if be then cstruct_store_fw mem out s n else cstruct_store_rev mem out s n)"

text \<open>
  \<open>cstruct_load_fw(dst, src, size)\<close>: \<open>d[i] = src[i]\<close>, with \<open>dst\<close> the offset \<open>doff\<close>
  into the destination object \<open>d\<close> and \<open>src\<close> the offset \<open>inp\<close> into the buffer.
\<close>

definition cstruct_load_fw :: "byte list \<Rightarrow> nat \<Rightarrow> byte list \<Rightarrow> nat \<Rightarrow> nat \<Rightarrow> fault + byte list" where
  "cstruct_load_fw d doff src inp n =
     (if doff + n \<le> length d \<and> inp + n \<le> length src
      then Inr (fold (\<lambda>i m. m[doff + i := src ! (inp + i)]) [0..<n] d)
      else Inl OutOfBounds)"

definition cstruct_load_rev :: "byte list \<Rightarrow> nat \<Rightarrow> byte list \<Rightarrow> nat \<Rightarrow> nat \<Rightarrow> fault + byte list" where
  "cstruct_load_rev d doff src inp n =
     (if doff + n \<le> length d \<and> inp + n \<le> length src
      then Inr (fold (\<lambda>i m. m[doff + i := src ! (inp + (n - 1 - i))]) [0..<n] d)
      else Inl OutOfBounds)"

definition cstruct_load_le :: "bool \<Rightarrow> byte list \<Rightarrow> nat \<Rightarrow> byte list \<Rightarrow> nat \<Rightarrow> nat \<Rightarrow> fault + byte list" where
  "cstruct_load_le be d doff src inp n =
     (if be then cstruct_load_rev d doff src inp n else cstruct_load_fw d doff src inp n)"

definition cstruct_load_be :: "bool \<Rightarrow> byte list \<Rightarrow> nat \<Rightarrow> byte list \<Rightarrow> nat \<Rightarrow> nat \<Rightarrow> fault + byte list" where
  "cstruct_load_be be d doff src inp n =
     (if be then cstruct_load_fw d doff src inp n else cstruct_load_rev d doff src inp n)"

section \<open>Half-float converter\<close>

text \<open>
  A \<open>float\<close> is its binary32 pattern. The source reads the pattern through a union:
  \<open>in.f = f; bits = in.u;\<close> stores the four bytes of the float and reads the same bytes
  as a \<open>uint32_t\<close>. A float and a \<open>uint32_t\<close> have the same byte order on a host (on a
  big-endian one \<open>1.0f\<close> is the bytes 3F 80 00 00, which read as the number
  \<open>0x3F800000\<close>), so the number read is the pattern on either host. The byte swap under
  \<open>#if CSTRUCT_IS_BIG_ENDIAN\<close> is then applied to that number, as the source does.
\<close>

definition union_u :: "bool \<Rightarrow> 32 word \<Rightarrow> 32 word" where
  "union_u be f = obj_value be (obj_repr be 4 f)"

lemma union_u_eq [simp]: "union_u be f = f"
  by (simp add: union_u_def obj_value_obj_repr)

definition bswap32 :: "32 word \<Rightarrow> 32 word" where
  "bswap32 x = push_bit 24 (x AND 0xFF) OR push_bit 8 (x AND 0xFF00)
             OR drop_bit 8 (x AND 0xFF0000) OR drop_bit 24 (x AND 0xFF000000)"

definition cstruct_float_to_half :: "bool \<Rightarrow> 32 word \<Rightarrow> 16 word" where
  "cstruct_float_to_half be f =
     (let u = union_u be f;
          bits = (if be then bswap32 u else u);
          sign = drop_bit 16 bits AND 0x8000;
          expo = sint ((drop_bit 23 bits AND 0xFF) - 127 + 15);
          frac = drop_bit 13 bits AND 0x3FF
      in if expo \<le> 0 then
           (if expo < - 10 then ucast sign
            else let frac1 = (bits AND 0x7FFFFF) OR 0x800000;
                     frac2 = drop_bit (nat (1 - expo)) frac1;
                     frac3 = drop_bit 13 (frac2 + 0x1000)
                 in ucast (sign OR frac3))
         else if expo \<ge> 0x1F then
           (if bits AND 0x7FFFFF \<noteq> 0
            then ucast (sign OR 0x7C00 OR (drop_bit 13 bits AND 0x3FF))
            else ucast (sign OR 0x7C00))
         else ucast (sign OR push_bit 10 (word_of_int expo) OR frac))"

text \<open>The loop \<open>while ((frac & 0x400) == 0) { frac <<= 1; expo -= 1; }\<close>.\<close>

partial_function (option) half_normalize :: "32 word \<Rightarrow> 32 word \<Rightarrow> (32 word \<times> 32 word) option" where
  "half_normalize frac expo =
     (if frac AND 0x400 = 0 then half_normalize (push_bit 1 frac) (expo - 1)
      else Some (frac, expo))"

declare half_normalize.simps [code]

lemma half_normalize_shift:
  "frac AND 0x400 = 0 \<Longrightarrow> half_normalize frac expo = half_normalize (push_bit 1 frac) (expo - 1)"
  by (subst half_normalize.simps) simp

lemma half_normalize_stop:
  "frac AND 0x400 \<noteq> 0 \<Longrightarrow> half_normalize frac expo = Some (frac, expo)"
  by (subst half_normalize.simps) simp

definition cstruct_half_to_float :: "bool \<Rightarrow> 16 word \<Rightarrow> 32 word option" where
  "cstruct_half_to_float be h =
     (let sign = drop_bit 15 (ucast h) AND 0x00000001;
          expo = drop_bit 10 (ucast h) AND 0x0000001F;
          frac = ucast h AND 0x000003FF;
          f = (if expo = 0 then
                 (if frac = 0 then Some (push_bit 31 sign)
                  else case half_normalize frac expo of
                         None \<Rightarrow> None
                       | Some (frac1, expo1) \<Rightarrow>
                           let expo2 = expo1 + 1;
                               frac2 = frac1 AND 0x000003FF
                           in Some (push_bit 31 sign OR push_bit 23 (expo2 + (127 - 15))
                                    OR push_bit 13 frac2))
               else if expo = 0x1F then
                 Some (push_bit 31 sign OR push_bit 23 0xFF OR push_bit 13 frac)
               else
                 Some (push_bit 31 sign OR push_bit 23 (expo + (127 - 15)) OR push_bit 13 frac))
      in case f of None \<Rightarrow> None
         | Some u \<Rightarrow> Some (union_u be (if be then bswap32 u else u)))"

section \<open>Format token parser\<close>

definition isdigit :: "char \<Rightarrow> bool" where
  "isdigit c = (48 \<le> (of_char c :: nat) \<and> (of_char c :: nat) \<le> 57)"

definition CSTRUCT_DIV10_THRESHOLD :: size_t where
  "CSTRUCT_DIV10_THRESHOLD = (- 1) div 10"

definition CSTRUCT_DIV10_MAX_LAST_DIGIT :: size_t where
  "CSTRUCT_DIV10_MAX_LAST_DIGIT = (- 1) mod 10"

text \<open>
  The digit loop of \<open>parse_token\<close>: the rest of the string and the count, or \<open>None\<close>
  where the source returns \<open>NULL\<close> on overflow.
\<close>

fun scan_count :: "string \<Rightarrow> size_t \<Rightarrow> (string \<times> size_t) option" where
  "scan_count [] count = Some ([], count)"
| "scan_count (c # p) count =
     (if isdigit c then
        (let digit = (of_char c :: nat) - 48 in
         if count > CSTRUCT_DIV10_THRESHOLD \<or>
            (count = CSTRUCT_DIV10_THRESHOLD \<and> of_nat digit > CSTRUCT_DIV10_MAX_LAST_DIGIT)
         then None
         else scan_count p (count * 10 + of_nat digit))
      else Some (c # p, count))"

text \<open>The \<open>switch (*p)\<close> on the type letter.\<close>

definition type_switch :: "char \<Rightarrow> cstruct_endian_t \<Rightarrow> size_t \<Rightarrow> cstruct_token_t option" where
  "type_switch c e cnt =
     (let tok = (\<lambda>t s. Some \<lparr>tok_type = t, tok_endian = e, tok_size = s, tok_count = cnt\<rparr>) in
      if c = CHR ''b'' then tok CSTRUCT_TYPE_INT8 1
      else if c = CHR ''B'' then tok CSTRUCT_TYPE_UINT8 1
      else if c = CHR ''h'' then tok CSTRUCT_TYPE_INT16 2
      else if c = CHR ''H'' then tok CSTRUCT_TYPE_UINT16 2
      else if c = CHR ''i'' then tok CSTRUCT_TYPE_INT32 4
      else if c = CHR ''I'' then tok CSTRUCT_TYPE_UINT32 4
      else if c = CHR ''q'' then tok CSTRUCT_TYPE_INT64 8
      else if c = CHR ''Q'' then tok CSTRUCT_TYPE_UINT64 8
      else if c = CHR ''t'' then tok CSTRUCT_TYPE_INT128 16
      else if c = CHR ''T'' then tok CSTRUCT_TYPE_UINT128 16
      else if c = CHR ''e'' then tok CSTRUCT_TYPE_FLOAT16 2
      else if c = CHR ''f'' then tok CSTRUCT_TYPE_FLOAT32 4
      else if c = CHR ''d'' then tok CSTRUCT_TYPE_FLOAT64 8
      else if c = CHR ''s'' then
        Some \<lparr>tok_type = CSTRUCT_TYPE_STRING, tok_endian = e, tok_size = cnt, tok_count = 1\<rparr>
      else if c = CHR ''x'' then
        Some \<lparr>tok_type = CSTRUCT_TYPE_PADDING, tok_endian = e, tok_size = cnt, tok_count = 1\<rparr>
      else None)"

text \<open>
  \<open>parse_token\<close> returns the position after the token, the token and the running
  endianness, or \<open>None\<close> for \<open>NULL\<close>.
\<close>

fun parse_token :: "string \<Rightarrow> cstruct_endian_t \<Rightarrow> (string \<times> cstruct_token_t \<times> cstruct_endian_t) option" where
  "parse_token [] ce = None"
| "parse_token (c # p) ce =
     (if c = CHR ''<'' then parse_token p CSTRUCT_ENDIAN_LITTLE
      else if c = CHR ''>'' then parse_token p CSTRUCT_ENDIAN_BIG
      else
        case (if isdigit c then
                (case scan_count (c # p) 0 of
                   None \<Rightarrow> None
                 | Some (p1, count) \<Rightarrow> Some (p1, if count = 0 then 1 else count))
              else Some (c # p, 1)) of
          None \<Rightarrow> None
        | Some (p1, count) \<Rightarrow>
            (case p1 of
               [] \<Rightarrow> None
             | t # rest \<Rightarrow>
                 (case type_switch t ce count of
                    None \<Rightarrow> None
                  | Some tok \<Rightarrow> Some (rest, tok, ce))))"

section \<open>Per-type pack primitives\<close>

text \<open>
  The body shared by the typed primitives:
  \<open>cstruct_store_le(out, &value, n); return out + n;\<close> and its big-endian twin.
\<close>

definition pack_le :: "bool \<Rightarrow> byte list \<Rightarrow> nat \<Rightarrow> byte list \<Rightarrow> nat \<Rightarrow> fault + (byte list \<times> nat)" where
  "pack_le be mem out s n =
     (case cstruct_store_le be mem out s n of Inl f \<Rightarrow> Inl f | Inr m \<Rightarrow> Inr (m, out + n))"

definition pack_be :: "bool \<Rightarrow> byte list \<Rightarrow> nat \<Rightarrow> byte list \<Rightarrow> nat \<Rightarrow> fault + (byte list \<times> nat)" where
  "pack_be be mem out s n =
     (case cstruct_store_be be mem out s n of Inl f \<Rightarrow> Inl f | Inr m \<Rightarrow> Inr (m, out + n))"

definition cstruct_pack_padding :: "nat \<Rightarrow> size_t \<Rightarrow> nat" where
  "cstruct_pack_padding out sz = out + unat sz"

definition cstruct_pack_int8 :: "byte list \<Rightarrow> nat \<Rightarrow> 8 word \<Rightarrow> fault + (byte list \<times> nat)" where
  "cstruct_pack_int8 mem out v =
     (if out < length mem then Inr (mem[out := v], out + 1) else Inl OutOfBounds)"

definition cstruct_pack_uint8 :: "byte list \<Rightarrow> nat \<Rightarrow> 8 word \<Rightarrow> fault + (byte list \<times> nat)" where
  "cstruct_pack_uint8 mem out v =
     (if out < length mem then Inr (mem[out := v], out + 1) else Inl OutOfBounds)"

definition cstruct_pack_int16_le :: "bool \<Rightarrow> byte list \<Rightarrow> nat \<Rightarrow> 16 word \<Rightarrow> fault + (byte list \<times> nat)" where
  "cstruct_pack_int16_le be mem out v = pack_le be mem out (obj_repr be 2 v) 2"

definition cstruct_pack_int16_be :: "bool \<Rightarrow> byte list \<Rightarrow> nat \<Rightarrow> 16 word \<Rightarrow> fault + (byte list \<times> nat)" where
  "cstruct_pack_int16_be be mem out v = pack_be be mem out (obj_repr be 2 v) 2"

definition cstruct_pack_uint16_le :: "bool \<Rightarrow> byte list \<Rightarrow> nat \<Rightarrow> 16 word \<Rightarrow> fault + (byte list \<times> nat)" where
  "cstruct_pack_uint16_le be mem out v = pack_le be mem out (obj_repr be 2 v) 2"

definition cstruct_pack_uint16_be :: "bool \<Rightarrow> byte list \<Rightarrow> nat \<Rightarrow> 16 word \<Rightarrow> fault + (byte list \<times> nat)" where
  "cstruct_pack_uint16_be be mem out v = pack_be be mem out (obj_repr be 2 v) 2"

definition cstruct_pack_int32_le :: "bool \<Rightarrow> byte list \<Rightarrow> nat \<Rightarrow> 32 word \<Rightarrow> fault + (byte list \<times> nat)" where
  "cstruct_pack_int32_le be mem out v = pack_le be mem out (obj_repr be 4 v) 4"

definition cstruct_pack_int32_be :: "bool \<Rightarrow> byte list \<Rightarrow> nat \<Rightarrow> 32 word \<Rightarrow> fault + (byte list \<times> nat)" where
  "cstruct_pack_int32_be be mem out v = pack_be be mem out (obj_repr be 4 v) 4"

definition cstruct_pack_uint32_le :: "bool \<Rightarrow> byte list \<Rightarrow> nat \<Rightarrow> 32 word \<Rightarrow> fault + (byte list \<times> nat)" where
  "cstruct_pack_uint32_le be mem out v = pack_le be mem out (obj_repr be 4 v) 4"

definition cstruct_pack_uint32_be :: "bool \<Rightarrow> byte list \<Rightarrow> nat \<Rightarrow> 32 word \<Rightarrow> fault + (byte list \<times> nat)" where
  "cstruct_pack_uint32_be be mem out v = pack_be be mem out (obj_repr be 4 v) 4"

definition cstruct_pack_int64_le :: "bool \<Rightarrow> byte list \<Rightarrow> nat \<Rightarrow> 64 word \<Rightarrow> fault + (byte list \<times> nat)" where
  "cstruct_pack_int64_le be mem out v = pack_le be mem out (obj_repr be 8 v) 8"

definition cstruct_pack_int64_be :: "bool \<Rightarrow> byte list \<Rightarrow> nat \<Rightarrow> 64 word \<Rightarrow> fault + (byte list \<times> nat)" where
  "cstruct_pack_int64_be be mem out v = pack_be be mem out (obj_repr be 8 v) 8"

definition cstruct_pack_uint64_le :: "bool \<Rightarrow> byte list \<Rightarrow> nat \<Rightarrow> 64 word \<Rightarrow> fault + (byte list \<times> nat)" where
  "cstruct_pack_uint64_le be mem out v = pack_le be mem out (obj_repr be 8 v) 8"

definition cstruct_pack_uint64_be :: "bool \<Rightarrow> byte list \<Rightarrow> nat \<Rightarrow> 64 word \<Rightarrow> fault + (byte list \<times> nat)" where
  "cstruct_pack_uint64_be be mem out v = pack_be be mem out (obj_repr be 8 v) 8"

text \<open>The 128-bit primitives take a pointer to the 16 bytes of the value.\<close>

definition cstruct_pack_int128_le :: "bool \<Rightarrow> byte list \<Rightarrow> nat \<Rightarrow> byte list \<Rightarrow> fault + (byte list \<times> nat)" where
  "cstruct_pack_int128_le be mem out v = pack_le be mem out v 16"

definition cstruct_pack_int128_be :: "bool \<Rightarrow> byte list \<Rightarrow> nat \<Rightarrow> byte list \<Rightarrow> fault + (byte list \<times> nat)" where
  "cstruct_pack_int128_be be mem out v = pack_be be mem out v 16"

definition cstruct_pack_uint128_le :: "bool \<Rightarrow> byte list \<Rightarrow> nat \<Rightarrow> byte list \<Rightarrow> fault + (byte list \<times> nat)" where
  "cstruct_pack_uint128_le be mem out v = pack_le be mem out v 16"

definition cstruct_pack_uint128_be :: "bool \<Rightarrow> byte list \<Rightarrow> nat \<Rightarrow> byte list \<Rightarrow> fault + (byte list \<times> nat)" where
  "cstruct_pack_uint128_be be mem out v = pack_be be mem out v 16"

definition cstruct_pack_float16_le :: "bool \<Rightarrow> byte list \<Rightarrow> nat \<Rightarrow> 32 word \<Rightarrow> fault + (byte list \<times> nat)" where
  "cstruct_pack_float16_le be mem out v =
     (let half = cstruct_float_to_half be v in pack_le be mem out (obj_repr be 2 half) 2)"

definition cstruct_pack_float16_be :: "bool \<Rightarrow> byte list \<Rightarrow> nat \<Rightarrow> 32 word \<Rightarrow> fault + (byte list \<times> nat)" where
  "cstruct_pack_float16_be be mem out v =
     (let half = cstruct_float_to_half be v in pack_be be mem out (obj_repr be 2 half) 2)"

definition cstruct_pack_float32_le :: "bool \<Rightarrow> byte list \<Rightarrow> nat \<Rightarrow> 32 word \<Rightarrow> fault + (byte list \<times> nat)" where
  "cstruct_pack_float32_le be mem out v = pack_le be mem out (obj_repr be 4 v) 4"

definition cstruct_pack_float32_be :: "bool \<Rightarrow> byte list \<Rightarrow> nat \<Rightarrow> 32 word \<Rightarrow> fault + (byte list \<times> nat)" where
  "cstruct_pack_float32_be be mem out v = pack_be be mem out (obj_repr be 4 v) 4"

definition cstruct_pack_float64_le :: "bool \<Rightarrow> byte list \<Rightarrow> nat \<Rightarrow> 64 word \<Rightarrow> fault + (byte list \<times> nat)" where
  "cstruct_pack_float64_le be mem out v = pack_le be mem out (obj_repr be 8 v) 8"

definition cstruct_pack_float64_be :: "bool \<Rightarrow> byte list \<Rightarrow> nat \<Rightarrow> 64 word \<Rightarrow> fault + (byte list \<times> nat)" where
  "cstruct_pack_float64_be be mem out v = pack_be be mem out (obj_repr be 8 v) 8"

lemmas pack_prim_defs =
  cstruct_pack_int16_le_def cstruct_pack_int16_be_def cstruct_pack_uint16_le_def
  cstruct_pack_uint16_be_def cstruct_pack_int32_le_def cstruct_pack_int32_be_def
  cstruct_pack_uint32_le_def cstruct_pack_uint32_be_def cstruct_pack_int64_le_def
  cstruct_pack_int64_be_def cstruct_pack_uint64_le_def cstruct_pack_uint64_be_def
  cstruct_pack_int128_le_def cstruct_pack_int128_be_def cstruct_pack_uint128_le_def
  cstruct_pack_uint128_be_def cstruct_pack_float16_le_def cstruct_pack_float16_be_def
  cstruct_pack_float32_le_def cstruct_pack_float32_be_def cstruct_pack_float64_le_def
  cstruct_pack_float64_be_def

section \<open>Strings\<close>

text \<open>
  \<open>memcpy\<close> and \<open>memset\<close> on objects given as byte lists, and \<open>strlen\<close>: the number
  of bytes before the first NUL, undefined when the object holds none.
\<close>

definition memcpy :: "byte list \<Rightarrow> nat \<Rightarrow> byte list \<Rightarrow> nat \<Rightarrow> nat \<Rightarrow> fault + byte list" where
  "memcpy d doff s soff n =
     (if doff + n \<le> length d \<and> soff + n \<le> length s
      then Inr (take doff d @ take n (drop soff s) @ drop (doff + n) d)
      else Inl OutOfBounds)"

definition memset :: "byte list \<Rightarrow> nat \<Rightarrow> byte \<Rightarrow> nat \<Rightarrow> fault + byte list" where
  "memset d doff c n =
     (if doff + n \<le> length d
      then Inr (take doff d @ replicate n c @ drop (doff + n) d)
      else Inl OutOfBounds)"

definition strlen :: "byte list \<Rightarrow> nat option" where
  "strlen s = (if 0 \<in> set s then Some (length (takeWhile (\<lambda>b. b \<noteq> 0) s)) else None)"

definition cstruct_pack_string :: "byte list \<Rightarrow> nat \<Rightarrow> byte list \<Rightarrow> size_t \<Rightarrow> fault + (byte list \<times> nat)" where
  "cstruct_pack_string mem out v sz =
     (case strlen v of
        None \<Rightarrow> Inl OutOfBounds
      | Some len \<Rightarrow>
          (let copy_len = (if len < unat sz then len else unat sz) in
           (case memcpy mem out v 0 copy_len of
              Inl f \<Rightarrow> Inl f
            | Inr m1 \<Rightarrow>
                (case (if copy_len < unat sz
                       then memset m1 (out + copy_len) 0 (unat sz - copy_len)
                       else Inr m1) of
                   Inl f \<Rightarrow> Inl f
                 | Inr m2 \<Rightarrow> Inr (m2, out + unat sz)))))"

definition cstruct_unpack_string :: "byte list \<Rightarrow> nat \<Rightarrow> byte list \<Rightarrow> size_t \<Rightarrow> fault + (byte list \<times> nat)" where
  "cstruct_unpack_string src inp v sz =
     (case memcpy v 0 src inp (unat sz) of
        Inl f \<Rightarrow> Inl f
      | Inr v1 \<Rightarrow>
          if unat sz < length v1 then Inr (v1[unat sz := 0], inp + unat sz)
          else Inl OutOfBounds)"

section \<open>Per-type unpack primitives\<close>

text \<open>
  An unpack primitive reads the buffer \<open>src\<close> at offset \<open>inp\<close> and writes through the
  pointer \<open>value\<close>: offset \<open>doff\<close> of the destination object \<open>d\<close>. It returns the
  object as written and the next input position.
\<close>

definition unpack_le :: "bool \<Rightarrow> byte list \<Rightarrow> nat \<Rightarrow> byte list \<Rightarrow> nat \<Rightarrow> nat \<Rightarrow> fault + (byte list \<times> nat)" where
  "unpack_le be src inp d doff n =
     (case cstruct_load_le be d doff src inp n of Inl f \<Rightarrow> Inl f | Inr d1 \<Rightarrow> Inr (d1, inp + n))"

definition unpack_be :: "bool \<Rightarrow> byte list \<Rightarrow> nat \<Rightarrow> byte list \<Rightarrow> nat \<Rightarrow> nat \<Rightarrow> fault + (byte list \<times> nat)" where
  "unpack_be be src inp d doff n =
     (case cstruct_load_be be d doff src inp n of Inl f \<Rightarrow> Inl f | Inr d1 \<Rightarrow> Inr (d1, inp + n))"

text \<open>\<open>*value = v\<close> for a value of \<open>length bs\<close> bytes.\<close>

definition assign :: "byte list \<Rightarrow> nat \<Rightarrow> byte list \<Rightarrow> fault + byte list" where
  "assign d doff bs =
     (if doff + length bs \<le> length d
      then Inr (take doff d @ bs @ drop (doff + length bs) d)
      else Inl OutOfBounds)"

definition cstruct_unpack_int8 :: "byte list \<Rightarrow> nat \<Rightarrow> byte list \<Rightarrow> nat \<Rightarrow> fault + (byte list \<times> nat)" where
  "cstruct_unpack_int8 src inp d doff =
     (if inp < length src \<and> doff < length d
      then Inr (d[doff := src ! inp], inp + 1) else Inl OutOfBounds)"

definition cstruct_unpack_uint8 :: "byte list \<Rightarrow> nat \<Rightarrow> byte list \<Rightarrow> nat \<Rightarrow> fault + (byte list \<times> nat)" where
  "cstruct_unpack_uint8 src inp d doff =
     (if inp < length src \<and> doff < length d
      then Inr (d[doff := src ! inp], inp + 1) else Inl OutOfBounds)"

definition cstruct_unpack_int16_le :: "bool \<Rightarrow> byte list \<Rightarrow> nat \<Rightarrow> byte list \<Rightarrow> nat \<Rightarrow> fault + (byte list \<times> nat)" where
  "cstruct_unpack_int16_le be src inp d doff = unpack_le be src inp d doff 2"

definition cstruct_unpack_int16_be :: "bool \<Rightarrow> byte list \<Rightarrow> nat \<Rightarrow> byte list \<Rightarrow> nat \<Rightarrow> fault + (byte list \<times> nat)" where
  "cstruct_unpack_int16_be be src inp d doff = unpack_be be src inp d doff 2"

definition cstruct_unpack_uint16_le :: "bool \<Rightarrow> byte list \<Rightarrow> nat \<Rightarrow> byte list \<Rightarrow> nat \<Rightarrow> fault + (byte list \<times> nat)" where
  "cstruct_unpack_uint16_le be src inp d doff = unpack_le be src inp d doff 2"

definition cstruct_unpack_uint16_be :: "bool \<Rightarrow> byte list \<Rightarrow> nat \<Rightarrow> byte list \<Rightarrow> nat \<Rightarrow> fault + (byte list \<times> nat)" where
  "cstruct_unpack_uint16_be be src inp d doff = unpack_be be src inp d doff 2"

definition cstruct_unpack_int32_le :: "bool \<Rightarrow> byte list \<Rightarrow> nat \<Rightarrow> byte list \<Rightarrow> nat \<Rightarrow> fault + (byte list \<times> nat)" where
  "cstruct_unpack_int32_le be src inp d doff = unpack_le be src inp d doff 4"

definition cstruct_unpack_int32_be :: "bool \<Rightarrow> byte list \<Rightarrow> nat \<Rightarrow> byte list \<Rightarrow> nat \<Rightarrow> fault + (byte list \<times> nat)" where
  "cstruct_unpack_int32_be be src inp d doff = unpack_be be src inp d doff 4"

definition cstruct_unpack_uint32_le :: "bool \<Rightarrow> byte list \<Rightarrow> nat \<Rightarrow> byte list \<Rightarrow> nat \<Rightarrow> fault + (byte list \<times> nat)" where
  "cstruct_unpack_uint32_le be src inp d doff = unpack_le be src inp d doff 4"

definition cstruct_unpack_uint32_be :: "bool \<Rightarrow> byte list \<Rightarrow> nat \<Rightarrow> byte list \<Rightarrow> nat \<Rightarrow> fault + (byte list \<times> nat)" where
  "cstruct_unpack_uint32_be be src inp d doff = unpack_be be src inp d doff 4"

definition cstruct_unpack_int64_le :: "bool \<Rightarrow> byte list \<Rightarrow> nat \<Rightarrow> byte list \<Rightarrow> nat \<Rightarrow> fault + (byte list \<times> nat)" where
  "cstruct_unpack_int64_le be src inp d doff = unpack_le be src inp d doff 8"

definition cstruct_unpack_int64_be :: "bool \<Rightarrow> byte list \<Rightarrow> nat \<Rightarrow> byte list \<Rightarrow> nat \<Rightarrow> fault + (byte list \<times> nat)" where
  "cstruct_unpack_int64_be be src inp d doff = unpack_be be src inp d doff 8"

definition cstruct_unpack_uint64_le :: "bool \<Rightarrow> byte list \<Rightarrow> nat \<Rightarrow> byte list \<Rightarrow> nat \<Rightarrow> fault + (byte list \<times> nat)" where
  "cstruct_unpack_uint64_le be src inp d doff = unpack_le be src inp d doff 8"

definition cstruct_unpack_uint64_be :: "bool \<Rightarrow> byte list \<Rightarrow> nat \<Rightarrow> byte list \<Rightarrow> nat \<Rightarrow> fault + (byte list \<times> nat)" where
  "cstruct_unpack_uint64_be be src inp d doff = unpack_be be src inp d doff 8"

definition cstruct_unpack_int128_le :: "bool \<Rightarrow> byte list \<Rightarrow> nat \<Rightarrow> byte list \<Rightarrow> nat \<Rightarrow> fault + (byte list \<times> nat)" where
  "cstruct_unpack_int128_le be src inp d doff = unpack_le be src inp d doff 16"

definition cstruct_unpack_int128_be :: "bool \<Rightarrow> byte list \<Rightarrow> nat \<Rightarrow> byte list \<Rightarrow> nat \<Rightarrow> fault + (byte list \<times> nat)" where
  "cstruct_unpack_int128_be be src inp d doff = unpack_be be src inp d doff 16"

definition cstruct_unpack_uint128_le :: "bool \<Rightarrow> byte list \<Rightarrow> nat \<Rightarrow> byte list \<Rightarrow> nat \<Rightarrow> fault + (byte list \<times> nat)" where
  "cstruct_unpack_uint128_le be src inp d doff = cstruct_unpack_int128_le be src inp d doff"

definition cstruct_unpack_uint128_be :: "bool \<Rightarrow> byte list \<Rightarrow> nat \<Rightarrow> byte list \<Rightarrow> nat \<Rightarrow> fault + (byte list \<times> nat)" where
  "cstruct_unpack_uint128_be be src inp d doff = cstruct_unpack_int128_be be src inp d doff"

text \<open>
  \<open>uint16_t half; cstruct_load_le(&half, in, 2); *value = cstruct_half_to_float(half);\<close>
  The local \<open>half\<close> is a fresh two-byte object; the destination is a \<open>float\<close>.
\<close>

definition cstruct_unpack_float16_le :: "bool \<Rightarrow> byte list \<Rightarrow> nat \<Rightarrow> byte list \<Rightarrow> nat \<Rightarrow> fault + (byte list \<times> nat)" where
  "cstruct_unpack_float16_le be src inp d doff =
     (case cstruct_load_le be [0, 0] 0 src inp 2 of
        Inl f \<Rightarrow> Inl f
      | Inr half \<Rightarrow>
          (case cstruct_half_to_float be (obj_value be half) of
             None \<Rightarrow> Inl NoReturn
           | Some v \<Rightarrow>
               (case assign d doff (obj_repr be 4 v) of
                  Inl f \<Rightarrow> Inl f
                | Inr d1 \<Rightarrow> Inr (d1, inp + 2))))"

definition cstruct_unpack_float16_be :: "bool \<Rightarrow> byte list \<Rightarrow> nat \<Rightarrow> byte list \<Rightarrow> nat \<Rightarrow> fault + (byte list \<times> nat)" where
  "cstruct_unpack_float16_be be src inp d doff =
     (case cstruct_load_be be [0, 0] 0 src inp 2 of
        Inl f \<Rightarrow> Inl f
      | Inr half \<Rightarrow>
          (case cstruct_half_to_float be (obj_value be half) of
             None \<Rightarrow> Inl NoReturn
           | Some v \<Rightarrow>
               (case assign d doff (obj_repr be 4 v) of
                  Inl f \<Rightarrow> Inl f
                | Inr d1 \<Rightarrow> Inr (d1, inp + 2))))"

definition cstruct_unpack_float32_le :: "bool \<Rightarrow> byte list \<Rightarrow> nat \<Rightarrow> byte list \<Rightarrow> nat \<Rightarrow> fault + (byte list \<times> nat)" where
  "cstruct_unpack_float32_le be src inp d doff = unpack_le be src inp d doff 4"

definition cstruct_unpack_float32_be :: "bool \<Rightarrow> byte list \<Rightarrow> nat \<Rightarrow> byte list \<Rightarrow> nat \<Rightarrow> fault + (byte list \<times> nat)" where
  "cstruct_unpack_float32_be be src inp d doff = unpack_be be src inp d doff 4"

text \<open>\<open>double val; cstruct_load_le(&val, src, sizeof(double)); *value = val;\<close>\<close>

definition cstruct_unpack_float64_le :: "bool \<Rightarrow> byte list \<Rightarrow> nat \<Rightarrow> byte list \<Rightarrow> nat \<Rightarrow> fault + (byte list \<times> nat)" where
  "cstruct_unpack_float64_le be src inp d doff =
     (case cstruct_load_le be (replicate 8 0) 0 src inp 8 of
        Inl f \<Rightarrow> Inl f
      | Inr val \<Rightarrow>
          (case assign d doff val of Inl f \<Rightarrow> Inl f | Inr d1 \<Rightarrow> Inr (d1, inp + 8)))"

definition cstruct_unpack_float64_be :: "bool \<Rightarrow> byte list \<Rightarrow> nat \<Rightarrow> byte list \<Rightarrow> nat \<Rightarrow> fault + (byte list \<times> nat)" where
  "cstruct_unpack_float64_be be src inp d doff =
     (case cstruct_load_be be (replicate 8 0) 0 src inp 8 of
        Inl f \<Rightarrow> Inl f
      | Inr val \<Rightarrow>
          (case assign d doff val of Inl f \<Rightarrow> Inl f | Inr d1 \<Rightarrow> Inr (d1, inp + 8)))"

lemmas unpack_prim_defs =
  cstruct_unpack_int16_le_def cstruct_unpack_int16_be_def cstruct_unpack_uint16_le_def
  cstruct_unpack_uint16_be_def cstruct_unpack_int32_le_def cstruct_unpack_int32_be_def
  cstruct_unpack_uint32_le_def cstruct_unpack_uint32_be_def cstruct_unpack_int64_le_def
  cstruct_unpack_int64_be_def cstruct_unpack_uint64_le_def cstruct_unpack_uint64_be_def
  cstruct_unpack_int128_le_def cstruct_unpack_int128_be_def cstruct_unpack_uint128_le_def
  cstruct_unpack_uint128_be_def cstruct_unpack_float32_le_def cstruct_unpack_float32_be_def

section \<open>Pack engine\<close>

text \<open>\<open>for (size_t i = i0; i < n; i++) body\<close>, stopping at the first fault.\<close>

function for_loop :: "nat \<Rightarrow> nat \<Rightarrow> (nat \<Rightarrow> 's \<Rightarrow> fault + 's) \<Rightarrow> 's \<Rightarrow> fault + 's" where
  "for_loop i n body s =
     (if i < n then (case body i s of Inl f \<Rightarrow> Inl f | Inr s1 \<Rightarrow> for_loop (Suc i) n body s1)
      else Inr s)"
  by pat_completeness auto
termination
  by (relation "measure (\<lambda>(i, n, body, s). n - i)") auto

declare for_loop.simps [simp del]

text \<open>
  Reading the argument slot of a scalar token: \<open>(int8_t)va_arg(args, int)\<close> and the
  like narrow an \<open>int\<close>; the other types are read at their own type.
\<close>

definition int_arg :: "arg \<Rightarrow> ('a::len word) option" where
  "int_arg a = (case a of Int_arg v \<Rightarrow> Some (word_of_int v) | _ \<Rightarrow> None)"

definition int32_arg :: "arg \<Rightarrow> (32 word) option" where
  "int32_arg a = (case a of Int32_arg v \<Rightarrow> Some v | _ \<Rightarrow> None)"

definition int64_arg :: "arg \<Rightarrow> (64 word) option" where
  "int64_arg a = (case a of Int64_arg v \<Rightarrow> Some v | _ \<Rightarrow> None)"

definition float_arg :: "arg \<Rightarrow> (32 word) option" where
  "float_arg a = (case a of Float_arg v \<Rightarrow> Some v | _ \<Rightarrow> None)"

definition double_arg :: "arg \<Rightarrow> (64 word) option" where
  "double_arg a = (case a of Double_arg v \<Rightarrow> Some v | _ \<Rightarrow> None)"

definition ptr_arg :: "arg \<Rightarrow> (byte list) option" where
  "ptr_arg a = (case a of Ptr_arg v \<Rightarrow> Some v | _ \<Rightarrow> None)"

text \<open>
  \<open>arr[i]\<close> for an array of \<open>n\<close>-byte elements, and \<open>(const uint8_t *)arr + i * 16\<close>
  for the 128-bit types, which are passed on as pointers.
\<close>

definition arr_elem :: "bool \<Rightarrow> nat \<Rightarrow> byte list \<Rightarrow> nat \<Rightarrow> ('a::len word) option" where
  "arr_elem be n arr i =
     (if i * n + n \<le> length arr then Some (obj_value be (take n (drop (i * n) arr))) else None)"

definition arr_ptr :: "nat \<Rightarrow> byte list \<Rightarrow> nat \<Rightarrow> (byte list) option" where
  "arr_ptr n arr i = Some (drop (i * n) arr)"

text \<open>
  The shape every numeric case of the \<open>switch\<close> in \<open>cstruct_pack_v\<close> has: one argument
  is consumed; with \<open>tok.count > 1\<close> it is a pointer to an array whose elements are
  packed one by one, otherwise it is the value itself.
\<close>

definition pack_numeric ::
  "(arg \<Rightarrow> 'v option) \<Rightarrow> (byte list \<Rightarrow> nat \<Rightarrow> 'v option) \<Rightarrow>
   (byte list \<Rightarrow> nat \<Rightarrow> 'v \<Rightarrow> fault + (byte list \<times> nat)) \<Rightarrow>
   size_t \<Rightarrow> byte list \<Rightarrow> nat \<Rightarrow> arg list \<Rightarrow> fault + (byte list \<times> nat \<times> arg list)" where
  "pack_numeric scalar elem prim cnt mem out args =
     (case args of
        [] \<Rightarrow> Inl BadArgument
      | a # args1 \<Rightarrow>
          (case (if cnt > 1 then
                   (case a of
                      Ptr_arg arr \<Rightarrow>
                        for_loop 0 (unat cnt)
                          (\<lambda>i (m, out1). case elem arr i of
                                            None \<Rightarrow> Inl OutOfBounds
                                          | Some v \<Rightarrow> prim m out1 v)
                          (mem, out)
                    | _ \<Rightarrow> Inl BadArgument)
                 else
                   (case scalar a of
                      None \<Rightarrow> Inl BadArgument
                    | Some v \<Rightarrow> prim mem out v)) of
             Inl f \<Rightarrow> Inl f
           | Inr (m, out1) \<Rightarrow> Inr (m, out1, args1)))"

text \<open>The \<open>switch (tok.type)\<close> of \<open>cstruct_pack_v\<close>.\<close>

definition pack_token ::
  "bool \<Rightarrow> cstruct_token_t \<Rightarrow> byte list \<Rightarrow> nat \<Rightarrow> arg list \<Rightarrow> fault + (byte list \<times> nat \<times> arg list)" where
  "pack_token be tok mem out args =
     (let le = (tok_endian tok = CSTRUCT_ENDIAN_LITTLE); cnt = tok_count tok in
      case tok_type tok of
        CSTRUCT_TYPE_PADDING \<Rightarrow>
          Inr (mem, cstruct_pack_padding out (tok_size tok * tok_count tok), args)
      | CSTRUCT_TYPE_STRING \<Rightarrow>
          (case args of
             Ptr_arg str # args1 \<Rightarrow>
               (case cstruct_pack_string mem out str (tok_size tok) of
                  Inl f \<Rightarrow> Inl f
                | Inr (m, out1) \<Rightarrow> Inr (m, out1, args1))
           | _ \<Rightarrow> Inl BadArgument)
      | CSTRUCT_TYPE_FLOAT32 \<Rightarrow>
          pack_numeric float_arg (arr_elem be 4)
            (if le then cstruct_pack_float32_le be else cstruct_pack_float32_be be) cnt mem out args
      | CSTRUCT_TYPE_FLOAT64 \<Rightarrow>
          pack_numeric double_arg (arr_elem be 8)
            (if le then cstruct_pack_float64_le be else cstruct_pack_float64_be be) cnt mem out args
      | CSTRUCT_TYPE_FLOAT16 \<Rightarrow>
          pack_numeric float_arg (arr_elem be 4)
            (if le then cstruct_pack_float16_le be else cstruct_pack_float16_be be) cnt mem out args
      | CSTRUCT_TYPE_INT8 \<Rightarrow>
          pack_numeric int_arg (arr_elem be 1) cstruct_pack_int8 cnt mem out args
      | CSTRUCT_TYPE_UINT8 \<Rightarrow>
          pack_numeric int_arg (arr_elem be 1) cstruct_pack_uint8 cnt mem out args
      | CSTRUCT_TYPE_INT16 \<Rightarrow>
          pack_numeric int_arg (arr_elem be 2)
            (if le then cstruct_pack_int16_le be else cstruct_pack_int16_be be) cnt mem out args
      | CSTRUCT_TYPE_UINT16 \<Rightarrow>
          pack_numeric int_arg (arr_elem be 2)
            (if le then cstruct_pack_uint16_le be else cstruct_pack_uint16_be be) cnt mem out args
      | CSTRUCT_TYPE_INT32 \<Rightarrow>
          pack_numeric int32_arg (arr_elem be 4)
            (if le then cstruct_pack_int32_le be else cstruct_pack_int32_be be) cnt mem out args
      | CSTRUCT_TYPE_UINT32 \<Rightarrow>
          pack_numeric int32_arg (arr_elem be 4)
            (if le then cstruct_pack_uint32_le be else cstruct_pack_uint32_be be) cnt mem out args
      | CSTRUCT_TYPE_INT64 \<Rightarrow>
          pack_numeric int64_arg (arr_elem be 8)
            (if le then cstruct_pack_int64_le be else cstruct_pack_int64_be be) cnt mem out args
      | CSTRUCT_TYPE_UINT64 \<Rightarrow>
          pack_numeric int64_arg (arr_elem be 8)
            (if le then cstruct_pack_uint64_le be else cstruct_pack_uint64_be be) cnt mem out args
      | CSTRUCT_TYPE_INT128 \<Rightarrow>
          pack_numeric ptr_arg (arr_ptr 16)
            (if le then cstruct_pack_int128_le be else cstruct_pack_int128_be be) cnt mem out args
      | CSTRUCT_TYPE_UINT128 \<Rightarrow>
          pack_numeric ptr_arg (arr_ptr 16)
            (if le then cstruct_pack_uint128_le be else cstruct_pack_uint128_be be) cnt mem out args)"

text \<open>Every token takes at least its type letter from the format string.\<close>

lemma scan_count_length:
  "scan_count p c = Some (p1, c1) \<Longrightarrow> length p1 \<le> length p"
proof (induction p arbitrary: c)
  case Nil
  then show ?case by simp
next
  case (Cons a p)
  show ?case
  proof (cases "isdigit a")
    case True
    with Cons.prems
    have "scan_count p (c * 10 + of_nat ((of_char a :: nat) - 48)) = Some (p1, c1)"
      by (simp add: Let_def split: if_splits)
    then have "length p1 \<le> length p" by (rule Cons.IH)
    then show ?thesis by simp
  next
    case False
    with Cons.prems show ?thesis by simp
  qed
qed

lemma parse_token_length:
  "parse_token p ce = Some (rest, tok, ce1) \<Longrightarrow> length rest < length p"
proof (induction p arbitrary: ce)
  case Nil
  then show ?case by simp
next
  case (Cons c p)
  show ?case
  proof (cases "c = CHR ''<'' \<or> c = CHR ''>''")
    case True
    with Cons show ?thesis by (auto split: if_splits dest: less_SucI)
  next
    case False
    with Cons.prems show ?thesis
      by (auto simp del: scan_count.simps
               split: if_splits option.splits list.splits dest!: scan_count_length)
  qed
qed

text \<open>
  The loop of \<open>cstruct_pack_v\<close>. \<open>dstlen\<close> is the capacity passed by the caller, \<open>mem\<close>
  the destination object, \<open>out\<close> the cursor; \<open>(size_t)(end - out)\<close> is
  \<open>dstlen - out\<close> in \<open>size_t\<close>. The result is the memory as the call leaves it and the
  returned pointer: \<open>Some\<close> offset, or \<open>None\<close> for \<open>NULL\<close>.
\<close>

function pack_loop ::
  "bool \<Rightarrow> size_t \<Rightarrow> string \<Rightarrow> cstruct_endian_t \<Rightarrow> byte list \<Rightarrow> nat \<Rightarrow> arg list \<Rightarrow>
   fault + (byte list \<times> nat option)" where
  "pack_loop be dstlen fmt ce mem out args =
     (if fmt = [] then Inr (mem, Some out)
      else
        case parse_token fmt ce of
          None \<Rightarrow> Inr (mem, None)
        | Some (next_fmt, tok, ce1) \<Rightarrow>
            if dstlen - of_nat out < tok_size tok * tok_count tok then Inr (mem, None)
            else
              (case pack_token be tok mem out args of
                 Inl f \<Rightarrow> Inl f
               | Inr (mem1, out1, args1) \<Rightarrow> pack_loop be dstlen next_fmt ce1 mem1 out1 args1))"
  by pat_completeness auto
termination
  by (relation "measure (\<lambda>(be, dstlen, fmt, rest). length fmt)")
     (auto dest: parse_token_length)

declare pack_loop.simps [simp del]

definition cstruct_pack_v :: "bool \<Rightarrow> byte list \<Rightarrow> size_t \<Rightarrow> string \<Rightarrow> arg list \<Rightarrow> fault + (byte list \<times> nat option)" where
  "cstruct_pack_v be dst dstlen fmt args = pack_loop be dstlen fmt CSTRUCT_ENDIAN_LITTLE dst 0 args"

definition cstruct_pack :: "bool \<Rightarrow> byte list \<Rightarrow> size_t \<Rightarrow> string \<Rightarrow> arg list \<Rightarrow> fault + (byte list \<times> nat option)" where
  "cstruct_pack be dst dstlen fmt args = cstruct_pack_v be dst dstlen fmt args"

section \<open>Unpack engine\<close>

text \<open>
  The shape every numeric case of the \<open>switch\<close> in \<open>cstruct_unpack_v\<close> has: the
  argument is a pointer to the destination, an array of \<open>tok.count\<close> elements of
  \<open>esz\<close> bytes when \<open>tok.count > 1\<close>. The destination object is returned as written.
\<close>

definition unpack_numeric ::
  "(byte list \<Rightarrow> nat \<Rightarrow> byte list \<Rightarrow> nat \<Rightarrow> fault + (byte list \<times> nat)) \<Rightarrow> nat \<Rightarrow>
   size_t \<Rightarrow> byte list \<Rightarrow> nat \<Rightarrow> arg list \<Rightarrow> fault + (arg list \<times> nat \<times> arg list)" where
  "unpack_numeric prim esz cnt src inp args =
     (case args of
        [] \<Rightarrow> Inl BadArgument
      | a # args1 \<Rightarrow>
          (case a of
             Ptr_arg d \<Rightarrow>
               (case (if cnt > 1 then
                        for_loop 0 (unat cnt) (\<lambda>i (d1, inp1). prim src inp1 d1 (i * esz)) (d, inp)
                      else prim src inp d 0) of
                  Inl f \<Rightarrow> Inl f
                | Inr (d1, inp1) \<Rightarrow> Inr ([Ptr_arg d1], inp1, args1))
           | _ \<Rightarrow> Inl BadArgument))"

text \<open>
  The \<open>switch (tok.type)\<close> of \<open>cstruct_unpack_v\<close>: the destination objects written
  (none for padding), the next input position and the arguments left.
\<close>

definition unpack_token ::
  "bool \<Rightarrow> cstruct_token_t \<Rightarrow> byte list \<Rightarrow> nat \<Rightarrow> arg list \<Rightarrow> fault + (arg list \<times> nat \<times> arg list)" where
  "unpack_token be tok src inp args =
     (let le = (tok_endian tok = CSTRUCT_ENDIAN_LITTLE); cnt = tok_count tok in
      case tok_type tok of
        CSTRUCT_TYPE_PADDING \<Rightarrow> Inr ([], inp + unat (tok_size tok * tok_count tok), args)
      | CSTRUCT_TYPE_STRING \<Rightarrow>
          (case args of
             Ptr_arg str # args1 \<Rightarrow>
               (case cstruct_unpack_string src inp str (tok_size tok) of
                  Inl f \<Rightarrow> Inl f
                | Inr (str1, inp1) \<Rightarrow> Inr ([Ptr_arg str1], inp1, args1))
           | _ \<Rightarrow> Inl BadArgument)
      | CSTRUCT_TYPE_FLOAT32 \<Rightarrow>
          unpack_numeric (if le then cstruct_unpack_float32_le be else cstruct_unpack_float32_be be)
            4 cnt src inp args
      | CSTRUCT_TYPE_FLOAT64 \<Rightarrow>
          unpack_numeric (if le then cstruct_unpack_float64_le be else cstruct_unpack_float64_be be)
            8 cnt src inp args
      | CSTRUCT_TYPE_FLOAT16 \<Rightarrow>
          unpack_numeric (if le then cstruct_unpack_float16_le be else cstruct_unpack_float16_be be)
            4 cnt src inp args
      | CSTRUCT_TYPE_INT8 \<Rightarrow> unpack_numeric cstruct_unpack_int8 1 cnt src inp args
      | CSTRUCT_TYPE_UINT8 \<Rightarrow> unpack_numeric cstruct_unpack_uint8 1 cnt src inp args
      | CSTRUCT_TYPE_INT16 \<Rightarrow>
          unpack_numeric (if le then cstruct_unpack_int16_le be else cstruct_unpack_int16_be be)
            2 cnt src inp args
      | CSTRUCT_TYPE_UINT16 \<Rightarrow>
          unpack_numeric (if le then cstruct_unpack_uint16_le be else cstruct_unpack_uint16_be be)
            2 cnt src inp args
      | CSTRUCT_TYPE_INT32 \<Rightarrow>
          unpack_numeric (if le then cstruct_unpack_int32_le be else cstruct_unpack_int32_be be)
            4 cnt src inp args
      | CSTRUCT_TYPE_UINT32 \<Rightarrow>
          unpack_numeric (if le then cstruct_unpack_uint32_le be else cstruct_unpack_uint32_be be)
            4 cnt src inp args
      | CSTRUCT_TYPE_INT64 \<Rightarrow>
          unpack_numeric (if le then cstruct_unpack_int64_le be else cstruct_unpack_int64_be be)
            8 cnt src inp args
      | CSTRUCT_TYPE_UINT64 \<Rightarrow>
          unpack_numeric (if le then cstruct_unpack_uint64_le be else cstruct_unpack_uint64_be be)
            8 cnt src inp args
      | CSTRUCT_TYPE_INT128 \<Rightarrow>
          unpack_numeric (if le then cstruct_unpack_int128_le be else cstruct_unpack_int128_be be)
            16 cnt src inp args
      | CSTRUCT_TYPE_UINT128 \<Rightarrow>
          unpack_numeric (if le then cstruct_unpack_uint128_le be else cstruct_unpack_uint128_be be)
            16 cnt src inp args)"

text \<open>
  The loop of \<open>cstruct_unpack_v\<close>. The result is the list of destination objects
  written so far, in argument order, and the returned pointer.
\<close>

function unpack_loop ::
  "bool \<Rightarrow> size_t \<Rightarrow> string \<Rightarrow> cstruct_endian_t \<Rightarrow> byte list \<Rightarrow> nat \<Rightarrow> arg list \<Rightarrow> arg list \<Rightarrow>
   fault + (arg list \<times> nat option)" where
  "unpack_loop be srclen fmt ce src inp args outs =
     (if fmt = [] then Inr (outs, Some inp)
      else
        case parse_token fmt ce of
          None \<Rightarrow> Inr (outs, None)
        | Some (next_fmt, tok, ce1) \<Rightarrow>
            if srclen - of_nat inp < tok_size tok * tok_count tok then Inr (outs, None)
            else
              (case unpack_token be tok src inp args of
                 Inl f \<Rightarrow> Inl f
               | Inr (written, inp1, args1) \<Rightarrow>
                   unpack_loop be srclen next_fmt ce1 src inp1 args1 (outs @ written)))"
  by pat_completeness auto
termination
  by (relation "measure (\<lambda>(be, srclen, fmt, rest). length fmt)")
     (auto dest: parse_token_length)

declare unpack_loop.simps [simp del]

definition cstruct_unpack_v :: "bool \<Rightarrow> byte list \<Rightarrow> size_t \<Rightarrow> string \<Rightarrow> arg list \<Rightarrow> fault + (arg list \<times> nat option)" where
  "cstruct_unpack_v be src srclen fmt args =
     unpack_loop be srclen fmt CSTRUCT_ENDIAN_LITTLE src 0 args []"

definition cstruct_unpack :: "bool \<Rightarrow> byte list \<Rightarrow> size_t \<Rightarrow> string \<Rightarrow> arg list \<Rightarrow> fault + (arg list \<times> nat option)" where
  "cstruct_unpack be src srclen fmt args = cstruct_unpack_v be src srclen fmt args"

section \<open>Field locator\<close>

text \<open>
  The loop of \<open>cstruct_get_ptr\<close>. It never reads the buffer, so only \<open>srclen\<close> is a
  parameter; the result is the offset of the returned pointer from \<open>src\<close>.
\<close>

function get_ptr_loop ::
  "size_t \<Rightarrow> string \<Rightarrow> cstruct_endian_t \<Rightarrow> nat \<Rightarrow> size_t \<Rightarrow> size_t \<Rightarrow> nat option" where
  "get_ptr_loop srclen fmt ce inp current_index index =
     (if fmt = [] then None
      else
        case parse_token fmt ce of
          None \<Rightarrow> None
        | Some (next_fmt, tok, ce1) \<Rightarrow>
            if srclen - of_nat inp < tok_size tok then None
            else if current_index = index then Some inp
            else get_ptr_loop srclen next_fmt ce1 (inp + unat (tok_size tok))
                   (current_index + 1) index)"
  by pat_completeness auto
termination
  by (relation "measure (\<lambda>(srclen, fmt, rest). length fmt)")
     (auto dest: parse_token_length)

declare get_ptr_loop.simps [simp del]

definition cstruct_get_ptr :: "size_t \<Rightarrow> string \<Rightarrow> size_t \<Rightarrow> nat option" where
  "cstruct_get_ptr srclen fmt index = get_ptr_loop srclen fmt CSTRUCT_ENDIAN_LITTLE 0 0 index"

section \<open>Notions used in the statements\<close>

text \<open>
  What \<open>parse_token\<close> guarantees about a token it returns: a count of at least one,
  the fixed width of a numeric type, and a count of exactly one for \<open>s\<close> and \<open>x\<close>,
  whose digits are the width.
\<close>

definition token_ok :: "cstruct_token_t \<Rightarrow> bool" where
  "token_ok tok =
     (tok_count tok \<noteq> 0 \<and>
      (case tok_type tok of
         CSTRUCT_TYPE_INT8 \<Rightarrow> tok_size tok = 1
       | CSTRUCT_TYPE_UINT8 \<Rightarrow> tok_size tok = 1
       | CSTRUCT_TYPE_INT16 \<Rightarrow> tok_size tok = 2
       | CSTRUCT_TYPE_UINT16 \<Rightarrow> tok_size tok = 2
       | CSTRUCT_TYPE_INT32 \<Rightarrow> tok_size tok = 4
       | CSTRUCT_TYPE_UINT32 \<Rightarrow> tok_size tok = 4
       | CSTRUCT_TYPE_INT64 \<Rightarrow> tok_size tok = 8
       | CSTRUCT_TYPE_UINT64 \<Rightarrow> tok_size tok = 8
       | CSTRUCT_TYPE_INT128 \<Rightarrow> tok_size tok = 16
       | CSTRUCT_TYPE_UINT128 \<Rightarrow> tok_size tok = 16
       | CSTRUCT_TYPE_FLOAT16 \<Rightarrow> tok_size tok = 2
       | CSTRUCT_TYPE_FLOAT32 \<Rightarrow> tok_size tok = 4
       | CSTRUCT_TYPE_FLOAT64 \<Rightarrow> tok_size tok = 8
       | CSTRUCT_TYPE_PADDING \<Rightarrow> tok_count tok = 1
       | CSTRUCT_TYPE_STRING \<Rightarrow> tok_count tok = 1))"

text \<open>
  The token stream of a format string: what the loops of the engines obtain from
  \<open>parse_token\<close>, call after call, when no capacity check stops them.
\<close>

function tokens :: "string \<Rightarrow> cstruct_endian_t \<Rightarrow> cstruct_token_t list option" where
  "tokens fmt ce =
     (if fmt = [] then Some []
      else
        case parse_token fmt ce of
          None \<Rightarrow> None
        | Some (next_fmt, tok, ce1) \<Rightarrow>
            (case tokens next_fmt ce1 of None \<Rightarrow> None | Some ts \<Rightarrow> Some (tok # ts)))"
  by pat_completeness auto
termination
  by (relation "measure (\<lambda>(fmt, ce). length fmt)") (auto dest: parse_token_length)

declare tokens.simps [simp del]

definition packed_size :: "cstruct_token_t list \<Rightarrow> nat" where
  "packed_size ts = sum_list (map (\<lambda>t. unat (tok_size t) * unat (tok_count t)) ts)"

text \<open>
  The formats made of one token of type letter \<open>c\<close>: the letter alone, or after one
  endianness marker.
\<close>

definition single_formats :: "char \<Rightarrow> string set" where
  "single_formats c = {[c], [CHR ''<'', c], [CHR ''>'', c]}"

text \<open>
  Half precision on a little-endian host, at the values the specification names: zero
  of either sign, \<open>1.0\<close>, \<open>-2.0\<close>, the largest normal half \<open>65504\<close>, the smallest and the
  largest subnormal half, both infinities and a quiet NaN.
\<close>

definition half_samples :: "32 word set" where
  "half_samples = {0x00000000, 0x80000000, 0x3F800000, 0xC0000000, 0x477FE000,
                   0x33800000, 0x387FC000, 0x7F800000, 0xFF800000, 0x7FC00000}"

section \<open>Closed forms of the codec and of the loops\<close>

lemma fold_update_upt:
  "out + n \<le> length mem \<Longrightarrow>
   fold (\<lambda>i m. m[out + i := g i]) [0..<n] mem = take out mem @ map g [0..<n] @ drop (out + n) mem"
proof (induction n)
  case 0
  then show ?case by simp
next
  case (Suc n)
  then have lt: "out + n < length mem" by simp
  have "fold (\<lambda>i m. m[out + i := g i]) [0..<Suc n] mem
      = (take out mem @ map g [0..<n] @ drop (out + n) mem)[out + n := g n]"
    using Suc by simp
  also have "\<dots> = take out mem @ (map g [0..<n] @ drop (out + n) mem)[n := g n]"
    using lt by (simp add: list_update_append)
  also have "(map g [0..<n] @ drop (out + n) mem)[n := g n]
      = map g [0..<n] @ (drop (out + n) mem)[0 := g n]"
    by (simp add: list_update_append)
  also have "(drop (out + n) mem)[0 := g n] = g n # drop (out + Suc n) mem"
    using lt by (simp add: Cons_nth_drop_Suc [symmetric])
  finally show ?case by simp
qed

lemma map_nth_take: "n \<le> length s \<Longrightarrow> map (\<lambda>i. s ! i) [0..<n] = take n s"
  by (rule nth_equalityI) auto

lemma map_nth_rev_take: "n \<le> length s \<Longrightarrow> map (\<lambda>i. s ! (n - Suc i)) [0..<n] = rev (take n s)"
  by (rule nth_equalityI) (auto simp: rev_nth)

lemma map_nth_drop_take:
  "inp + n \<le> length s \<Longrightarrow> map (\<lambda>i. s ! (inp + i)) [0..<n] = take n (drop inp s)"
  by (rule nth_equalityI) auto

lemma map_nth_rev_drop_take:
  "inp + n \<le> length s \<Longrightarrow> map (\<lambda>i. s ! (inp + (n - Suc i))) [0..<n] = rev (take n (drop inp s))"
  by (rule nth_equalityI) (auto simp: rev_nth)

lemma cstruct_store_le_eq:
  "cstruct_store_le be mem out s n =
     (if out + n \<le> length mem \<and> n \<le> length s
      then Inr (take out mem @ (if be then rev (take n s) else take n s) @ drop (out + n) mem)
      else Inl OutOfBounds)"
  by (simp add: cstruct_store_le_def cstruct_store_fw_def cstruct_store_rev_def
        fold_update_upt map_nth_take map_nth_rev_take)

lemma cstruct_store_be_eq:
  "cstruct_store_be be mem out s n =
     (if out + n \<le> length mem \<and> n \<le> length s
      then Inr (take out mem @ (if be then take n s else rev (take n s)) @ drop (out + n) mem)
      else Inl OutOfBounds)"
  by (simp add: cstruct_store_be_def cstruct_store_fw_def cstruct_store_rev_def
        fold_update_upt map_nth_take map_nth_rev_take)

lemma cstruct_load_le_eq:
  "cstruct_load_le be d doff src inp n =
     (if doff + n \<le> length d \<and> inp + n \<le> length src
      then Inr (take doff d @ (if be then rev (take n (drop inp src)) else take n (drop inp src))
                @ drop (doff + n) d)
      else Inl OutOfBounds)"
  by (simp add: cstruct_load_le_def cstruct_load_fw_def cstruct_load_rev_def
        fold_update_upt map_nth_drop_take map_nth_rev_drop_take)

lemma cstruct_load_be_eq:
  "cstruct_load_be be d doff src inp n =
     (if doff + n \<le> length d \<and> inp + n \<le> length src
      then Inr (take doff d @ (if be then take n (drop inp src) else rev (take n (drop inp src)))
                @ drop (doff + n) d)
      else Inl OutOfBounds)"
  by (simp add: cstruct_load_be_def cstruct_load_fw_def cstruct_load_rev_def
        fold_update_upt map_nth_drop_take map_nth_rev_drop_take)

lemma length_le_bytes [simp]: "length (le_bytes n w) = n"
  by (induction n arbitrary: w) auto

lemma le_bytes_numeral [simp]:
  "le_bytes (numeral k) w = ucast w # le_bytes (pred_numeral k) (drop_bit 8 w)"
  by (simp add: numeral_eq_Suc)

lemma length_obj_repr [simp]: "length (obj_repr be n v) = n"
  by (simp add: obj_repr_def)

text \<open>Both stores write the value's bytes in the order asked for, whatever the host.\<close>

lemma pack_le_obj_repr:
  "pack_le be mem out (obj_repr be n v) n =
     (if out + n \<le> length mem
      then Inr (take out mem @ le_bytes n v @ drop (out + n) mem, out + n)
      else Inl OutOfBounds)"
  by (simp add: pack_le_def cstruct_store_le_eq obj_repr_def)

lemma pack_be_obj_repr:
  "pack_be be mem out (obj_repr be n v) n =
     (if out + n \<le> length mem
      then Inr (take out mem @ rev (le_bytes n v) @ drop (out + n) mem, out + n)
      else Inl OutOfBounds)"
  by (simp add: pack_be_def cstruct_store_be_eq obj_repr_def)

lemma pack_loop_Nil [simp]: "pack_loop be dstlen [] ce mem out args = Inr (mem, Some out)"
  by (simp add: pack_loop.simps)

lemma pack_loop_Cons:
  "pack_loop be dstlen (c # p) ce mem out args =
     (case parse_token (c # p) ce of
        None \<Rightarrow> Inr (mem, None)
      | Some (next_fmt, tok, ce1) \<Rightarrow>
          if dstlen - of_nat out < tok_size tok * tok_count tok then Inr (mem, None)
          else
            (case pack_token be tok mem out args of
               Inl f \<Rightarrow> Inl f
             | Inr (mem1, out1, args1) \<Rightarrow> pack_loop be dstlen next_fmt ce1 mem1 out1 args1))"
  by (subst pack_loop.simps) simp

lemma unpack_loop_Nil [simp]: "unpack_loop be srclen [] ce src inp args outs = Inr (outs, Some inp)"
  by (simp add: unpack_loop.simps)

lemma for_loop_step:
  "i < n \<Longrightarrow> for_loop i n body s =
     (case body i s of Inl f \<Rightarrow> Inl f | Inr s1 \<Rightarrow> for_loop (Suc i) n body s1)"
  by (subst for_loop.simps) simp

lemma for_loop_done: "\<not> i < n \<Longrightarrow> for_loop i n body s = Inr s"
  by (subst for_loop.simps) simp

lemmas parse_defs = isdigit_def type_switch_def CSTRUCT_DIV10_THRESHOLD_def
  CSTRUCT_DIV10_MAX_LAST_DIGIT_def

lemma unpack_loop_Cons:
  "unpack_loop be srclen (c # p) ce src inp args outs =
     (case parse_token (c # p) ce of
        None \<Rightarrow> Inr (outs, None)
      | Some (next_fmt, tok, ce1) \<Rightarrow>
          if srclen - of_nat inp < tok_size tok * tok_count tok then Inr (outs, None)
          else
            (case unpack_token be tok src inp args of
               Inl f \<Rightarrow> Inl f
             | Inr (written, inp1, args1) \<Rightarrow>
                 unpack_loop be srclen next_fmt ce1 src inp1 args1 (outs @ written)))"
  by (subst unpack_loop.simps) simp

lemma get_ptr_loop_Nil [simp]: "get_ptr_loop srclen [] ce inp ci index = None"
  by (simp add: get_ptr_loop.simps)

lemma get_ptr_loop_Cons:
  "get_ptr_loop srclen (c # p) ce inp current_index index =
     (case parse_token (c # p) ce of
        None \<Rightarrow> None
      | Some (next_fmt, tok, ce1) \<Rightarrow>
          if srclen - of_nat inp < tok_size tok then None
          else if current_index = index then Some inp
          else get_ptr_loop srclen next_fmt ce1 (inp + unat (tok_size tok))
                 (current_index + 1) index)"
  by (subst get_ptr_loop.simps) simp

lemma replicate_numeral_Cons:
  "replicate (numeral k) x = x # replicate (pred_numeral k) x"
  by (simp add: numeral_eq_Suc)

text \<open>Rules that run the engines on a format string given as a literal.\<close>

lemmas arg_defs = int_arg_def int32_arg_def int64_arg_def float_arg_def double_arg_def ptr_arg_def

lemmas pack_eval = cstruct_pack_def cstruct_pack_v_def pack_loop_Cons parse_defs pack_token_def
  pack_numeric_def arg_defs pack_prim_defs pack_le_obj_repr pack_be_obj_repr
  cstruct_pack_padding_def

lemmas unpack_eval = cstruct_unpack_def cstruct_unpack_v_def unpack_loop_Cons parse_defs
  unpack_token_def unpack_numeric_def unpack_prim_defs unpack_le_def unpack_be_def
  cstruct_load_le_eq cstruct_load_be_eq

section \<open>The empty format\<close>

text \<open>
  Claim C9. For the empty format string, \<open>cstruct_pack\<close> returns the destination start
  pointer (offset 0) and leaves the destination exactly as it was, and \<open>cstruct_unpack\<close>
  returns the source start pointer and writes no destination object; this holds for
  every buffer, every capacity (zero included), every argument list and both hosts.
\<close>

theorem empty_format:
  "cstruct_pack be dst dstlen [] args = Inr (dst, Some 0) \<and>
   cstruct_unpack be src srclen [] args1 = Inr ([], Some 0)"
  by (simp add: cstruct_pack_def cstruct_pack_v_def cstruct_unpack_def cstruct_unpack_v_def)

section \<open>Byte order on the wire\<close>

lemma pack_uint32_le_example:
  "cstruct_pack be [a0, a1, a2, a3] 4 ''<I'' [Int32_arg 0x12345678]
     = Inr ([0x78, 0x56, 0x34, 0x12], Some 4)"
  by (simp add: pack_eval)

lemma pack_uint32_be_example:
  "cstruct_pack be [a0, a1, a2, a3] 4 ''>I'' [Int32_arg 0x12345678]
     = Inr ([0x12, 0x34, 0x56, 0x78], Some 4)"
  by (simp add: pack_eval)

lemma pack_mixed_example:
  "cstruct_pack be [a0, a1, a2, a3] 4 ''<H>H'' [Int_arg 0x1234, Int_arg 0x5678]
     = Inr ([0x34, 0x12, 0x56, 0x78], Some 4)"
  by (simp add: pack_eval)

text \<open>
  Claim C2. Packing \<open>0x12345678\<close> with format \<open><I\<close> writes the bytes 78 56 34 12 and
  with \<open>>I\<close> the bytes 12 34 56 78; the running endianness applies per token, so
  \<open>(0x1234, 0x5678)\<close> with \<open><H>H\<close> gives 34 12 56 78. This holds on a host of either
  byte order and whatever the four-byte buffer held before.
\<close>

theorem endianness_on_the_wire:
  "cstruct_pack be [a0, a1, a2, a3] 4 ''<I'' [Int32_arg 0x12345678]
     = Inr ([0x78, 0x56, 0x34, 0x12], Some 4) \<and>
   cstruct_pack be [a0, a1, a2, a3] 4 ''>I'' [Int32_arg 0x12345678]
     = Inr ([0x12, 0x34, 0x56, 0x78], Some 4) \<and>
   cstruct_pack be [a0, a1, a2, a3] 4 ''<H>H'' [Int_arg 0x1234, Int_arg 0x5678]
     = Inr ([0x34, 0x12, 0x56, 0x78], Some 4)"
  using pack_uint32_le_example pack_uint32_be_example pack_mixed_example by blast

section \<open>Endianness markers at the end of the format\<close>

lemma scan_count_append:
  "scan_count p c = Some (p1, c1) \<Longrightarrow> p1 \<noteq> [] \<Longrightarrow> scan_count (p @ q) c = Some (p1 @ q, c1)"
proof (induction p arbitrary: c)
  case Nil
  then show ?case by simp
next
  case (Cons a p)
  show ?case
  proof (cases "isdigit a")
    case True
    with Cons.prems
    have ok: "\<not> (c > CSTRUCT_DIV10_THRESHOLD \<or>
            (c = CSTRUCT_DIV10_THRESHOLD \<and>
             of_nat ((of_char a :: nat) - 48) > CSTRUCT_DIV10_MAX_LAST_DIGIT))"
      and rec: "scan_count p (c * 10 + of_nat ((of_char a :: nat) - 48)) = Some (p1, c1)"
      by (auto simp: Let_def split: if_splits)
    from Cons.IH [OF rec Cons.prems(2)] True ok show ?thesis
      by (simp add: Let_def)
  next
    case False
    with Cons.prems show ?thesis by auto
  qed
qed

lemma parse_token_append:
  "parse_token p ce = Some (rest, tok, ce1) \<Longrightarrow> parse_token (p @ q) ce = Some (rest @ q, tok, ce1)"
proof (induction p arbitrary: ce)
  case Nil
  then show ?case by simp
next
  case (Cons c p)
  show ?case
  proof (cases "c = CHR ''<'' \<or> c = CHR ''>''")
    case True
    with Cons show ?thesis by (auto split: if_splits)
  next
    case False
    show ?thesis
    proof (cases "isdigit c")
      case True
      with False Cons.prems obtain p1 cnt t where
        sc: "scan_count (c # p) 0 = Some (p1, cnt)" and p1: "p1 = t # rest"
        and ts: "type_switch t ce (if cnt = 0 then 1 else cnt) = Some tok" and ce: "ce1 = ce"
        by (auto simp del: scan_count.simps split: option.splits list.splits)
      from scan_count_append [OF sc, of q] p1
      have "scan_count ((c # p) @ q) 0 = Some (t # rest @ q, cnt)" by simp
      then have "scan_count (c # p @ q) 0 = Some (t # rest @ q, cnt)" by simp
      with False True ts ce show ?thesis
        by (simp del: scan_count.simps)
    next
      case nd: False
      with False Cons.prems show ?thesis
        by (auto split: option.splits)
    qed
  qed
qed

lemma parse_token_markers:
  "set ms \<subseteq> {CHR ''<'', CHR ''>''} \<Longrightarrow> parse_token ms ce = None"
  by (induction ms arbitrary: ce) auto

lemma pack_loop_trailing_markers:
  "pack_loop be dstlen fmt ce mem out args = Inr (m, Some off) \<Longrightarrow>
   ms \<noteq> [] \<Longrightarrow> set ms \<subseteq> {CHR ''<'', CHR ''>''} \<Longrightarrow>
   pack_loop be dstlen (fmt @ ms) ce mem out args = Inr (m, None)"
proof (induction be dstlen fmt ce mem out args rule: pack_loop.induct)
  case (1 be dstlen fmt ce mem out args)
  show ?case
  proof (cases fmt)
    case Nil
    from "1.prems"(2) obtain c cs where ms: "ms = c # cs" by (cases ms) auto
    from Nil "1.prems"(1) have "m = mem" by simp
    with Nil ms "1.prems"(3) parse_token_markers [of ms ce] show ?thesis
      by (simp add: pack_loop_Cons)
  next
    case (Cons c p)
    with "1.prems"(1) obtain next_fmt tok ce1 mem1 out1 args1 where
      pt: "parse_token fmt ce = Some (next_fmt, tok, ce1)"
      and chk: "\<not> dstlen - of_nat out < tok_size tok * tok_count tok"
      and tk: "pack_token be tok mem out args = Inr (mem1, out1, args1)"
      and rest: "pack_loop be dstlen next_fmt ce1 mem1 out1 args1 = Inr (m, Some off)"
      by (auto simp: pack_loop_Cons split: option.splits if_splits sum.splits)
    from Cons have ne: "fmt \<noteq> []" by simp
    have ih: "pack_loop be dstlen (next_fmt @ ms) ce1 mem1 out1 args1 = Inr (m, None)"
      using "1.IH" [OF ne pt refl refl chk tk refl refl rest "1.prems"(2) "1.prems"(3)] by simp
    from parse_token_append [OF pt, of ms]
    have pt': "parse_token (c # p @ ms) ce = Some (next_fmt @ ms, tok, ce1)"
      using Cons by simp
    show ?thesis
      using Cons pt' chk tk ih by (simp add: pack_loop_Cons)
  qed
qed

lemma unpack_loop_trailing_markers:
  "unpack_loop be srclen fmt ce src inp args outs = Inr (r, Some off) \<Longrightarrow>
   ms \<noteq> [] \<Longrightarrow> set ms \<subseteq> {CHR ''<'', CHR ''>''} \<Longrightarrow>
   unpack_loop be srclen (fmt @ ms) ce src inp args outs = Inr (r, None)"
proof (induction be srclen fmt ce src inp args outs rule: unpack_loop.induct)
  case (1 be srclen fmt ce src inp args outs)
  show ?case
  proof (cases fmt)
    case Nil
    from "1.prems"(2) obtain c cs where ms: "ms = c # cs" by (cases ms) auto
    from Nil "1.prems"(1) have "r = outs" by simp
    with Nil ms "1.prems"(3) parse_token_markers [of ms ce] show ?thesis
      by (simp add: unpack_loop_Cons)
  next
    case (Cons c p)
    with "1.prems"(1) obtain next_fmt tok ce1 written inp1 args1 where
      pt: "parse_token fmt ce = Some (next_fmt, tok, ce1)"
      and chk: "\<not> srclen - of_nat inp < tok_size tok * tok_count tok"
      and tk: "unpack_token be tok src inp args = Inr (written, inp1, args1)"
      and rest: "unpack_loop be srclen next_fmt ce1 src inp1 args1 (outs @ written) = Inr (r, Some off)"
      by (auto simp: unpack_loop_Cons split: option.splits if_splits sum.splits)
    from Cons have ne: "fmt \<noteq> []" by simp
    have ih: "unpack_loop be srclen (next_fmt @ ms) ce1 src inp1 args1 (outs @ written) = Inr (r, None)"
      using "1.IH" [OF ne pt refl refl chk tk refl refl rest "1.prems"(2) "1.prems"(3)] by simp
    from parse_token_append [OF pt, of ms]
    have pt': "parse_token (c # p @ ms) ce = Some (next_fmt @ ms, tok, ce1)"
      using Cons by simp
    show ?thesis
      using Cons pt' chk tk ih by (simp add: unpack_loop_Cons)
  qed
qed

text \<open>
  Claim C5. The specification lets a format string end with endianness markers after
  complete tokens (for example \<open>I<\<close>): the call is to succeed and return the cursor
  reached after the preceding tokens, as if the markers were absent. The headers say
  that the endianness can be switched at any point of the format string. The code does
  not do that. The engines test for the end of the string before \<open>parse_token\<close> has
  skipped the markers; \<open>parse_token\<close> then consumes \<open><\<close>, finds no type letter and
  returns \<open>NULL\<close>, which the engines report as a format error. For \<open>I<\<close> the integer
  is packed (or unpacked) exactly as for \<open>I\<close>, and the call returns \<open>NULL\<close> instead of
  the cursor at offset 4, on either host and for any previous buffer content.
\<close>

theorem trailing_marker_returns_null:
  "parse_token ''<'' CSTRUCT_ENDIAN_LITTLE = None \<and>
   cstruct_pack be [a0, a1, a2, a3] 4 ''I'' [Int32_arg 0x12345678]
     = Inr ([0x78, 0x56, 0x34, 0x12], Some 4) \<and>
   cstruct_pack be [a0, a1, a2, a3] 4 ''I<'' [Int32_arg 0x12345678]
     = Inr ([0x78, 0x56, 0x34, 0x12], None) \<and>
   cstruct_unpack be [0x78, 0x56, 0x34, 0x12] 4 ''I'' [Ptr_arg [d0, d1, d2, d3]]
     = Inr ([Ptr_arg (obj_repr be 4 (0x12345678 :: 32 word))], Some 4) \<and>
   cstruct_unpack be [0x78, 0x56, 0x34, 0x12] 4 ''I<'' [Ptr_arg [d0, d1, d2, d3]]
     = Inr ([Ptr_arg (obj_repr be 4 (0x12345678 :: 32 word))], None)"
proof -
  have "parse_token ''<'' CSTRUCT_ENDIAN_LITTLE = None" by simp
  moreover have "cstruct_pack be [a0, a1, a2, a3] 4 ''I'' [Int32_arg 0x12345678]
     = Inr ([0x78, 0x56, 0x34, 0x12], Some 4)"
    by (simp add: pack_eval)
  moreover have "cstruct_pack be [a0, a1, a2, a3] 4 ''I<'' [Int32_arg 0x12345678]
     = Inr ([0x78, 0x56, 0x34, 0x12], None)"
    by (simp add: pack_eval)
  moreover have "cstruct_unpack be [0x78, 0x56, 0x34, 0x12] 4 ''I'' [Ptr_arg [d0, d1, d2, d3]]
     = Inr ([Ptr_arg (obj_repr be 4 (0x12345678 :: 32 word))], Some 4)"
    by (cases be) (simp_all add: unpack_eval obj_repr_def)
  moreover have "cstruct_unpack be [0x78, 0x56, 0x34, 0x12] 4 ''I<'' [Ptr_arg [d0, d1, d2, d3]]
     = Inr ([Ptr_arg (obj_repr be 4 (0x12345678 :: 32 word))], None)"
    by (cases be) (simp_all add: unpack_eval obj_repr_def)
  ultimately show ?thesis by blast
qed

text \<open>
  How far the defect reaches: whatever format succeeds, appending one or more markers to
  it turns the success into \<open>NULL\<close>, with the same bytes packed and the same
  destinations written.
\<close>

lemma trailing_markers_lose_the_cursor:
  assumes "ms \<noteq> []" and "set ms \<subseteq> {CHR ''<'', CHR ''>''}"
  shows "(cstruct_pack be dst dstlen fmt args = Inr (m, Some off) \<longrightarrow>
            cstruct_pack be dst dstlen (fmt @ ms) args = Inr (m, None)) \<and>
         (cstruct_unpack be src srclen fmt dests = Inr (r, Some off1) \<longrightarrow>
            cstruct_unpack be src srclen (fmt @ ms) dests = Inr (r, None))"
  using assms
  by (auto simp: cstruct_pack_def cstruct_pack_v_def cstruct_unpack_def cstruct_unpack_v_def
           intro: pack_loop_trailing_markers unpack_loop_trailing_markers)

section \<open>Tokens as the engines see them\<close>

lemma remaining_capacity:
  fixes dstlen :: size_t
  assumes "out \<le> unat dstlen"
  shows "unat (dstlen - of_nat out) = unat dstlen - out"
proof -
  have u: "unat (of_nat out :: size_t) = out"
    using assms by (rule le_unat_uoi)
  then have "(of_nat out :: size_t) \<le> dstlen"
    using assms by (simp add: word_le_nat_alt)
  then have "unat (dstlen - of_nat out) = unat dstlen - unat (of_nat out :: size_t)"
    by (rule unat_sub)
  with u show ?thesis by simp
qed

lemma type_switch_ok:
  "type_switch t ce cnt = Some tok \<Longrightarrow> cnt \<noteq> 0 \<Longrightarrow> token_ok tok"
  by (auto simp: type_switch_def token_ok_def split: if_splits)

lemma parse_token_ok:
  "parse_token p ce = Some (rest, tok, ce1) \<Longrightarrow> token_ok tok"
proof (induction p arbitrary: ce)
  case Nil
  then show ?case by simp
next
  case (Cons c p)
  show ?case
  proof (cases "c = CHR ''<'' \<or> c = CHR ''>''")
    case True
    with Cons show ?thesis by (auto split: if_splits)
  next
    case False
    with Cons.prems obtain t cnt where "type_switch t ce cnt = Some tok" and "cnt \<noteq> 0"
      by (auto simp del: scan_count.simps split: if_splits option.splits list.splits)
    then show ?thesis by (rule type_switch_ok)
  qed
qed

lemma parse_token_nonempty: "parse_token p ce = Some r \<Longrightarrow> p \<noteq> []"
  by (cases p) auto

lemma pack_loop_step:
  "parse_token fmt ce = Some (next_fmt, tok, ce1) \<Longrightarrow>
   pack_loop be dstlen fmt ce mem out args =
     (if dstlen - of_nat out < tok_size tok * tok_count tok then Inr (mem, None)
      else
        (case pack_token be tok mem out args of
           Inl f \<Rightarrow> Inl f
         | Inr (mem1, out1, args1) \<Rightarrow> pack_loop be dstlen next_fmt ce1 mem1 out1 args1))"
  by (frule parse_token_nonempty) (subst pack_loop.simps, simp)

section \<open>Padding\<close>

lemma padding_example:
  "cstruct_pack be [a0, a1, a2, a3, a4, a5, a6, a7, a8, a9, a10, a11] 12 ''I4xI''
      [Int32_arg 1, Int32_arg 2]
    = Inr ([1, 0, 0, 0, a4, a5, a6, a7, 2, 0, 0, 0], Some 12)"
  by (simp add: pack_eval)

text \<open>
  Claim C8. For every padding token the pack engine advances the cursor by
  \<open>element_size \<times> repeat_count\<close> and touches nothing: the memory and the argument list
  go on to the next token as they were (when the capacity check rejects the token the
  call returns \<open>NULL\<close>, again with the memory as it was). In particular, for \<open>I4xI\<close>
  with the values 1 and 2 the four bytes at offsets 4 to 7 keep what they held, while
  offsets 0 to 3 and 8 to 11 receive the integers.
\<close>

theorem padding_skips:
  assumes "parse_token fmt ce = Some (next_fmt, tok, ce1)"
    and "tok_type tok = CSTRUCT_TYPE_PADDING"
  shows "pack_loop be dstlen fmt ce mem out args =
           (if dstlen - of_nat out < tok_size tok * tok_count tok then Inr (mem, None)
            else pack_loop be dstlen next_fmt ce1 mem
                   (out + unat (tok_size tok) * unat (tok_count tok)) args) \<and>
         cstruct_pack be [a0, a1, a2, a3, a4, a5, a6, a7, a8, a9, a10, a11] 12 ''I4xI''
             [Int32_arg 1, Int32_arg 2]
           = Inr ([1, 0, 0, 0, a4, a5, a6, a7, 2, 0, 0, 0], Some 12)"
proof -
  from parse_token_ok [OF assms(1)] assms(2) have "tok_count tok = 1"
    by (simp add: token_ok_def)
  then show ?thesis
    using assms padding_example
    by (simp add: pack_loop_step pack_token_def cstruct_pack_padding_def)
qed

theorem padding_skips_witness:
  "parse_token ''4xI'' CSTRUCT_ENDIAN_LITTLE
     = Some (''I'', \<lparr>tok_type = CSTRUCT_TYPE_PADDING, tok_endian = CSTRUCT_ENDIAN_LITTLE,
                     tok_size = 4, tok_count = 1\<rparr>, CSTRUCT_ENDIAN_LITTLE) \<and>
   pack_loop False 12 ''4xI'' CSTRUCT_ENDIAN_LITTLE (replicate 12 0xAA) 4 [Int32_arg 2]
     = pack_loop False 12 ''I'' CSTRUCT_ENDIAN_LITTLE (replicate 12 0xAA) 8 [Int32_arg 2]"
proof -
  have p: "parse_token ''4xI'' CSTRUCT_ENDIAN_LITTLE
     = Some (''I'', \<lparr>tok_type = CSTRUCT_TYPE_PADDING, tok_endian = CSTRUCT_ENDIAN_LITTLE,
                     tok_size = 4, tok_count = 1\<rparr>, CSTRUCT_ENDIAN_LITTLE)"
    by (simp add: parse_defs)
  from padding_skips [OF p, of False 12 "replicate 12 0xAA" 4 "[Int32_arg 2]"] p
  show ?thesis by simp
qed

section \<open>String tokens\<close>

lemma strlen_le: "strlen s = Some len \<Longrightarrow> len \<le> length s"
  by (auto simp: strlen_def length_takeWhile_le split: if_splits)

lemma cstruct_pack_string_eq:
  assumes "strlen s = Some len" and "out + unat sz \<le> length mem"
  shows "cstruct_pack_string mem out s sz =
           Inr (take out mem @ take (min len (unat sz)) s
                @ replicate (unat sz - min len (unat sz)) 0 @ drop (out + unat sz) mem,
                out + unat sz)"
proof (cases "len < unat sz")
  case True
  with assms strlen_le [OF assms(1)] show ?thesis
    by (simp add: cstruct_pack_string_def memcpy_def memset_def min_def add.commute)
next
  case False
  with assms strlen_le [OF assms(1)] show ?thesis
    by (simp add: cstruct_pack_string_def memcpy_def memset_def min_def Let_def)
qed

lemma string_example:
  "cstruct_pack be [a0, a1, a2, a3, a4] 5 ''5s'' [Ptr_arg [0x48, 0x69, 0]]
     = Inr ([0x48, 0x69, 0, 0, 0], Some 5)"
  by (simp add: pack_eval cstruct_pack_string_def strlen_def memcpy_def memset_def
        replicate_numeral_Cons)

text \<open>
  Claim C7. For every string token of declared width \<open>N\<close> that passes the capacity
  check, the pack engine copies \<open>min (strlen source) N\<close> bytes of the source string to
  the cursor, fills the rest of the \<open>N\<close> bytes with zero, leaves every byte before the
  cursor and from \<open>cursor + N\<close> on as it was, and goes on to the next token with the
  cursor advanced by exactly \<open>N\<close>, whatever the length of the source. In particular
  \<open>Hi\<close> packed with \<open>5s\<close> gives 48 69 00 00 00.
\<close>

theorem string_token_packed:
  assumes "parse_token fmt ce = Some (next_fmt, tok, ce1)"
    and "tok_type tok = CSTRUCT_TYPE_STRING"
    and "strlen s = Some len"
    and "out \<le> unat dstlen" and "unat dstlen \<le> length mem"
    and "\<not> dstlen - of_nat out < tok_size tok * tok_count tok"
  shows "pack_loop be dstlen fmt ce mem out (Ptr_arg s # args) =
           pack_loop be dstlen next_fmt ce1
             (take out mem @ take (min len (unat (tok_size tok))) s
              @ replicate (unat (tok_size tok) - min len (unat (tok_size tok))) 0
              @ drop (out + unat (tok_size tok)) mem)
             (out + unat (tok_size tok)) args \<and>
         cstruct_pack be [a0, a1, a2, a3, a4] 5 ''5s'' [Ptr_arg [0x48, 0x69, 0]]
           = Inr ([0x48, 0x69, 0, 0, 0], Some 5)"
proof -
  from parse_token_ok [OF assms(1)] assms(2) have one: "tok_count tok = 1"
    by (simp add: token_ok_def)
  with assms(6) have "unat (tok_size tok) \<le> unat (dstlen - of_nat out)"
    by (simp add: word_less_nat_alt)
  with remaining_capacity [OF assms(4)] assms(4,5)
  have fits: "out + unat (tok_size tok) \<le> length mem" by simp
  show ?thesis
    using assms(1,2,6) one cstruct_pack_string_eq [OF assms(3) fits] string_example
    by (simp add: pack_loop_step pack_token_def)
qed

theorem string_token_packed_witness:
  "pack_loop False 8 ''3sB'' CSTRUCT_ENDIAN_LITTLE (replicate 8 0xAA) 2
       [Ptr_arg [0x48, 0x65, 0x6C, 0x6C, 0x6F, 0], Int_arg 7]
     = pack_loop False 8 ''B'' CSTRUCT_ENDIAN_LITTLE
         [0xAA, 0xAA, 0x48, 0x65, 0x6C, 0xAA, 0xAA, 0xAA] 5 [Int_arg 7]"
proof -
  have p: "parse_token ''3sB'' CSTRUCT_ENDIAN_LITTLE
     = Some (''B'', \<lparr>tok_type = CSTRUCT_TYPE_STRING, tok_endian = CSTRUCT_ENDIAN_LITTLE,
                     tok_size = 3, tok_count = 1\<rparr>, CSTRUCT_ENDIAN_LITTLE)"
    by (simp add: parse_defs)
  have t: "tok_type \<lparr>tok_type = CSTRUCT_TYPE_STRING, tok_endian = CSTRUCT_ENDIAN_LITTLE,
                     tok_size = 3, tok_count = 1\<rparr> = CSTRUCT_TYPE_STRING" by simp
  have l: "strlen [0x48, 0x65, 0x6C, 0x6C, 0x6F, 0] = Some 5"
    by (simp add: strlen_def)
  have c: "(2::nat) \<le> unat (8 :: size_t)" "unat (8 :: size_t) \<le> length (replicate 8 (0xAA :: byte))"
    by simp_all
  have k: "\<not> (8 :: size_t) - of_nat 2
            < tok_size \<lparr>tok_type = CSTRUCT_TYPE_STRING, tok_endian = CSTRUCT_ENDIAN_LITTLE,
                     tok_size = 3, tok_count = 1\<rparr>
              * tok_count \<lparr>tok_type = CSTRUCT_TYPE_STRING, tok_endian = CSTRUCT_ENDIAN_LITTLE,
                     tok_size = 3, tok_count = 1\<rparr>" by simp
  from string_token_packed [OF p t l c k, of False "[Int_arg 7]"]
  show ?thesis by (simp add: replicate_numeral_Cons)
qed

section \<open>The capacity check\<close>

text \<open>The capacity check, on the true product, when that product fits \<open>size_t\<close>.\<close>

lemma bounds_check_rejects:
  assumes "parse_token fmt ce = Some (next_fmt, tok, ce1)"
    and "out \<le> unat dstlen"
    and "unat (tok_size tok) * unat (tok_count tok) < 2 ^ 32"
    and "unat dstlen - out < unat (tok_size tok) * unat (tok_count tok)"
  shows "pack_loop be dstlen fmt ce mem out args = Inr (mem, None)"
proof -
  from assms(3) have "unat (tok_size tok * tok_count tok) = unat (tok_size tok) * unat (tok_count tok)"
    using unat_mult_lem [of "tok_size tok" "tok_count tok"] by simp
  with assms(4) remaining_capacity [OF assms(2)]
  have "dstlen - of_nat out < tok_size tok * tok_count tok"
    by (simp add: word_less_nat_alt)
  with assms(1) show ?thesis by (simp add: pack_loop_step)
qed

lemma too_small_for_uint32: "cstruct_pack be mem 3 ''I'' args = Inr (mem, None)"
  by (simp add: pack_eval)

text \<open>
  Claim C3 says that a token whose \<open>element_size \<times> repeat_count\<close> exceeds the remaining
  capacity makes the call fail with nothing written. The source compares the capacity
  with \<open>tok.size * tok.count\<close> computed in \<open>size_t\<close>, and that product wraps: for
  \<open>268435456t\<close> it is \<open>16 * 2^28 = 2^32\<close>, which is 0. With an 8-byte destination the
  check passes and the element loop stores 16 bytes per element: the call does not
  return \<open>NULL\<close>, it runs out of the destination, whatever the argument points to.
\<close>

theorem capacity_check_wraps:
  "parse_token ''268435456t'' CSTRUCT_ENDIAN_LITTLE
     = Some ([], \<lparr>tok_type = CSTRUCT_TYPE_INT128, tok_endian = CSTRUCT_ENDIAN_LITTLE,
                   tok_size = 16, tok_count = 268435456\<rparr>, CSTRUCT_ENDIAN_LITTLE) \<and>
   (16 :: size_t) * 268435456 = 0 \<and>
   cstruct_pack be [a0, a1, a2, a3, a4, a5, a6, a7] 8 ''268435456t'' [Ptr_arg v]
     = Inl OutOfBounds"
  by (simp add: pack_eval for_loop_step pack_le_def pack_be_def cstruct_store_le_eq
        cstruct_store_be_eq arr_ptr_def)

section \<open>The field locator and array tokens\<close>

text \<open>
  Claim C4 says that \<open>cstruct_get_ptr\<close> returns the offset of a token counting
  \<open>element_size \<times> repeat_count\<close> bytes for every token before it, and checks the bounds as
  the engines do. The source advances by \<open>tok.size\<close> and compares the capacity with
  \<open>tok.size\<close>, without \<open>tok.count\<close>: for \<open>2HI\<close> the field after the array is reported at
  offset 2, not 4, and on a 3-byte buffer field 0 is found although the engines reject
  the 4-byte array.
\<close>

theorem get_ptr_ignores_count:
  "cstruct_get_ptr 8 ''2HI'' 1 = Some 2 \<and> cstruct_get_ptr 3 ''2HI'' 0 = Some 0 \<and>
   cstruct_pack be [a0, a1, a2] 3 ''2HI'' args = Inr ([a0, a1, a2], None)"
  by (simp add: cstruct_get_ptr_def get_ptr_loop_Cons pack_eval)

lemma get_ptr_example: "7 \<le> srclen \<Longrightarrow> cstruct_get_ptr srclen ''HBI'' 2 = Some 3"
  apply (simp add: cstruct_get_ptr_def get_ptr_loop_Cons parse_defs)
  apply unat_arith
  done

section \<open>Half precision\<close>

text \<open>
  What the infinity and NaN branch of the converter returns on a little-endian host: the
  sign bit, an all-ones exponent field and the top ten mantissa bits of the input.
\<close>

lemma mask_10: "(0x3FF :: 32 word) = mask 10" by (simp add: mask_eq_exp_minus_1)
lemma mask_23: "(0x7FFFFF :: 32 word) = mask 23" by (simp add: mask_eq_exp_minus_1)

lemma top_mantissa_bits:
  "drop_bit 13 (f :: 32 word) AND 0x3FF = drop_bit 13 (f AND 0x7FFFFF)"
  unfolding mask_10 mask_23
  by (rule bit_eqI) (auto simp: bit_simps)

lemma float_to_half_inf_nan:
  assumes "drop_bit 23 f AND 0xFF = (0xFF :: 32 word)"
  shows "cstruct_float_to_half False f
           = ucast ((drop_bit 16 f AND 0x8000) OR 0x7C00 OR (drop_bit 13 f AND 0x3FF))"
proof (cases "f AND 0x7FFFFF = 0")
  case True
  then have "drop_bit 13 f AND 0x3FF = 0" by (simp add: top_mantissa_bits)
  with True assms show ?thesis by (simp add: cstruct_float_to_half_def)
next
  case False
  with assms show ?thesis by (simp add: cstruct_float_to_half_def)
qed

text \<open>
  Claim C6 says that every binary32 NaN is converted to a binary16 NaN. On a
  little-endian host the NaN \<open>0x7F800001\<close>, whose payload lies in the 13 low mantissa
  bits that the conversion drops, becomes \<open>0x7C00\<close>: positive infinity.
\<close>

theorem nan_becomes_infinity:
  "cstruct_float_to_half False 0x7F800001 = 0x7C00"
  by (simp add: cstruct_float_to_half_def)

text \<open>
  Claim C1 says that every scalar type round-trips through pack and unpack. On a
  big-endian host (\<open>CSTRUCT_IS_BIG_ENDIAN\<close> true) the half-float converter swaps the
  bytes of the binary32 pattern before taking it apart: \<open>1.0f\<close> is packed with \<open>e\<close> as
  00 00, and these bytes unpack to a \<open>float\<close> whose object is 00 00 00 00, not the
  3F 80 00 00 of \<open>1.0f\<close>.
\<close>

theorem half_lost_on_big_endian_host:
  "cstruct_pack True [a0, a1] 2 ''e'' [Float_arg 0x3F800000] = Inr ([0, 0], Some 2) \<and>
   cstruct_unpack True [0, 0] 2 ''e'' [Ptr_arg [d0, d1, d2, d3]]
     = Inr ([Ptr_arg [0, 0, 0, 0]], Some 2) \<and>
   obj_repr True 4 (0x3F800000 :: 32 word) = [0x3F, 0x80, 0, 0]"
proof -
  have "cstruct_pack True [a0, a1] 2 ''e'' [Float_arg 0x3F800000] = Inr ([0, 0], Some 2)"
    by (simp add: pack_eval cstruct_float_to_half_def bswap32_def)
  moreover have "cstruct_unpack True [0, 0] 2 ''e'' [Ptr_arg [d0, d1, d2, d3]]
     = Inr ([Ptr_arg [0, 0, 0, 0]], Some 2)"
    by (simp add: unpack_eval bswap32_def cstruct_unpack_float16_le_def obj_value_def
          cstruct_half_to_float_def assign_def obj_repr_def)
  moreover have "obj_repr True 4 (0x3F800000 :: 32 word) = [0x3F, 0x80, 0, 0]"
    by (simp add: obj_repr_def)
  ultimately show ?thesis by blast
qed

section \<open>How far the engines advance\<close>

lemma tokens_Nil [simp]: "tokens [] ce = Some []"
  by (simp add: tokens.simps)

lemma tokens_step:
  "parse_token fmt ce = Some (next_fmt, tok, ce1) \<Longrightarrow>
   tokens fmt ce = (case tokens next_fmt ce1 of None \<Rightarrow> None | Some ts \<Rightarrow> Some (tok # ts))"
  by (frule parse_token_nonempty) (subst tokens.simps, simp)

lemma unpack_loop_step:
  "parse_token fmt ce = Some (next_fmt, tok, ce1) \<Longrightarrow>
   unpack_loop be srclen fmt ce src inp args outs =
     (if srclen - of_nat inp < tok_size tok * tok_count tok then Inr (outs, None)
      else
        (case unpack_token be tok src inp args of
           Inl f \<Rightarrow> Inl f
         | Inr (written, inp1, args1) \<Rightarrow>
             unpack_loop be srclen next_fmt ce1 src inp1 args1 (outs @ written)))"
  by (frule parse_token_nonempty) (subst unpack_loop.simps, simp)

lemma for_loop_advance:
  assumes step: "\<And>i m p m1 p1. body i (m, p) = Inr (m1, p1) \<Longrightarrow> p1 = p + k"
  shows "for_loop i n body (m, p) = Inr (m1, p1) \<Longrightarrow> p1 = p + (n - i) * k"
proof (induction "n - i" arbitrary: i m p)
  case 0
  then show ?case by (simp add: for_loop_done)
next
  case (Suc d)
  then have lt: "i < n" by simp
  with Suc.prems obtain m2 p2 where b: "body i (m, p) = Inr (m2, p2)"
    and r: "for_loop (Suc i) n body (m2, p2) = Inr (m1, p1)"
    by (auto simp: for_loop_step split: sum.splits)
  from Suc.hyps(2) have "d = n - Suc i" by simp
  from Suc.hyps(1) [OF this r] have "p1 = p2 + (n - Suc i) * k" .
  moreover from step [OF b] have "p2 = p + k" .
  moreover from lt have "n - i = Suc (n - Suc i)" by simp
  ultimately show ?case by simp
qed

lemma count_one: "(cnt :: size_t) \<noteq> 0 \<Longrightarrow> \<not> 1 < cnt \<Longrightarrow> cnt = 1"
  by unat_arith

lemma pack_numeric_advance:
  assumes prim: "\<And>m p v m1 p1. prim m p v = Inr (m1, p1) \<Longrightarrow> p1 = p + k"
    and "cnt \<noteq> 0"
    and "pack_numeric scalar elem prim cnt mem out args = Inr (m1, o1, a1)"
  shows "o1 = out + k * unat cnt"
proof (cases "1 < cnt")
  case True
  with assms(3) obtain arr where
    "for_loop 0 (unat cnt)
       (\<lambda>i (m, out1). case elem arr i of None \<Rightarrow> Inl OutOfBounds | Some v \<Rightarrow> prim m out1 v)
       (mem, out) = Inr (m1, o1)"
    by (auto simp: pack_numeric_def split: list.splits arg.splits sum.splits)
  then have "o1 = out + (unat cnt - 0) * k"
    by (rule for_loop_advance [rotated]) (auto split: option.splits dest: prim)
  then show ?thesis by (simp add: mult.commute)
next
  case False
  with assms(2) have "cnt = 1" by (simp add: count_one)
  with False assms(3) show ?thesis
    by (auto simp: pack_numeric_def split: list.splits option.splits sum.splits dest: prim)
qed

lemma pack_le_advance: "pack_le be m p s n = Inr (m1, p1) \<Longrightarrow> p1 = p + n"
  by (auto simp: pack_le_def split: sum.splits)

lemma pack_be_advance: "pack_be be m p s n = Inr (m1, p1) \<Longrightarrow> p1 = p + n"
  by (auto simp: pack_be_def split: sum.splits)

lemma pack_string_advance:
  "cstruct_pack_string m p s sz = Inr (m1, p1) \<Longrightarrow> p1 = p + unat sz"
  by (auto simp: cstruct_pack_string_def Let_def split: option.splits sum.splits if_splits)

lemma pack_token_advance:
  assumes "token_ok tok" and "pack_token be tok mem out args = Inr (m1, o1, a1)"
  shows "o1 = out + unat (tok_size tok) * unat (tok_count tok)"
proof -
  from assms(1) have c: "tok_count tok \<noteq> 0" by (simp add: token_ok_def)
  note adv = pack_numeric_advance [OF _ c]
  show ?thesis
  proof (cases "tok_type tok")
    case CSTRUCT_TYPE_PADDING
    with assms show ?thesis
      by (simp add: pack_token_def token_ok_def cstruct_pack_padding_def)
  next
    case CSTRUCT_TYPE_STRING
    with assms show ?thesis
      by (auto simp: pack_token_def token_ok_def
               split: list.splits arg.splits sum.splits dest: pack_string_advance)
  next
    case CSTRUCT_TYPE_INT8
    with assms have "o1 = out + 1 * unat (tok_count tok)"
      by (intro adv [where k = 1])
         (auto simp: pack_token_def cstruct_pack_int8_def split: if_splits)
    with CSTRUCT_TYPE_INT8 assms(1) show ?thesis by (simp add: token_ok_def)
  next
    case CSTRUCT_TYPE_UINT8
    with assms have "o1 = out + 1 * unat (tok_count tok)"
      by (intro adv [where k = 1])
         (auto simp: pack_token_def cstruct_pack_uint8_def split: if_splits)
    with CSTRUCT_TYPE_UINT8 assms(1) show ?thesis by (simp add: token_ok_def)
  next
    case CSTRUCT_TYPE_INT16
    with assms have "o1 = out + 2 * unat (tok_count tok)"
      by (intro adv [where k = 2])
         (auto simp: pack_token_def pack_prim_defs Let_def split: if_splits
               dest: pack_le_advance pack_be_advance)
    with CSTRUCT_TYPE_INT16 assms(1) show ?thesis by (simp add: token_ok_def)
  next
    case CSTRUCT_TYPE_UINT16
    with assms have "o1 = out + 2 * unat (tok_count tok)"
      by (intro adv [where k = 2])
         (auto simp: pack_token_def pack_prim_defs Let_def split: if_splits
               dest: pack_le_advance pack_be_advance)
    with CSTRUCT_TYPE_UINT16 assms(1) show ?thesis by (simp add: token_ok_def)
  next
    case CSTRUCT_TYPE_INT32
    with assms have "o1 = out + 4 * unat (tok_count tok)"
      by (intro adv [where k = 4])
         (auto simp: pack_token_def pack_prim_defs Let_def split: if_splits
               dest: pack_le_advance pack_be_advance)
    with CSTRUCT_TYPE_INT32 assms(1) show ?thesis by (simp add: token_ok_def)
  next
    case CSTRUCT_TYPE_UINT32
    with assms have "o1 = out + 4 * unat (tok_count tok)"
      by (intro adv [where k = 4])
         (auto simp: pack_token_def pack_prim_defs Let_def split: if_splits
               dest: pack_le_advance pack_be_advance)
    with CSTRUCT_TYPE_UINT32 assms(1) show ?thesis by (simp add: token_ok_def)
  next
    case CSTRUCT_TYPE_INT64
    with assms have "o1 = out + 8 * unat (tok_count tok)"
      by (intro adv [where k = 8])
         (auto simp: pack_token_def pack_prim_defs Let_def split: if_splits
               dest: pack_le_advance pack_be_advance)
    with CSTRUCT_TYPE_INT64 assms(1) show ?thesis by (simp add: token_ok_def)
  next
    case CSTRUCT_TYPE_UINT64
    with assms have "o1 = out + 8 * unat (tok_count tok)"
      by (intro adv [where k = 8])
         (auto simp: pack_token_def pack_prim_defs Let_def split: if_splits
               dest: pack_le_advance pack_be_advance)
    with CSTRUCT_TYPE_UINT64 assms(1) show ?thesis by (simp add: token_ok_def)
  next
    case CSTRUCT_TYPE_INT128
    with assms have "o1 = out + 16 * unat (tok_count tok)"
      by (intro adv [where k = 16])
         (auto simp: pack_token_def pack_prim_defs Let_def split: if_splits
               dest: pack_le_advance pack_be_advance)
    with CSTRUCT_TYPE_INT128 assms(1) show ?thesis by (simp add: token_ok_def)
  next
    case CSTRUCT_TYPE_UINT128
    with assms have "o1 = out + 16 * unat (tok_count tok)"
      by (intro adv [where k = 16])
         (auto simp: pack_token_def pack_prim_defs Let_def split: if_splits
               dest: pack_le_advance pack_be_advance)
    with CSTRUCT_TYPE_UINT128 assms(1) show ?thesis by (simp add: token_ok_def)
  next
    case CSTRUCT_TYPE_FLOAT16
    with assms have "o1 = out + 2 * unat (tok_count tok)"
      by (intro adv [where k = 2])
         (auto simp: pack_token_def pack_prim_defs Let_def split: if_splits
               dest: pack_le_advance pack_be_advance)
    with CSTRUCT_TYPE_FLOAT16 assms(1) show ?thesis by (simp add: token_ok_def)
  next
    case CSTRUCT_TYPE_FLOAT32
    with assms have "o1 = out + 4 * unat (tok_count tok)"
      by (intro adv [where k = 4])
         (auto simp: pack_token_def pack_prim_defs Let_def split: if_splits
               dest: pack_le_advance pack_be_advance)
    with CSTRUCT_TYPE_FLOAT32 assms(1) show ?thesis by (simp add: token_ok_def)
  next
    case CSTRUCT_TYPE_FLOAT64
    with assms have "o1 = out + 8 * unat (tok_count tok)"
      by (intro adv [where k = 8])
         (auto simp: pack_token_def pack_prim_defs Let_def split: if_splits
               dest: pack_le_advance pack_be_advance)
    with CSTRUCT_TYPE_FLOAT64 assms(1) show ?thesis by (simp add: token_ok_def)
  qed
qed

lemma unpack_numeric_advance:
  assumes prim: "\<And>d doff p d1 p1. prim src p d doff = Inr (d1, p1) \<Longrightarrow> p1 = p + k"
    and "cnt \<noteq> 0"
    and "unpack_numeric prim esz cnt src inp args = Inr (w, i1, a1)"
  shows "i1 = inp + k * unat cnt"
proof (cases "1 < cnt")
  case True
  with assms(3) obtain d d1 where
    "for_loop 0 (unat cnt) (\<lambda>i (d1, inp1). prim src inp1 d1 (i * esz)) (d, inp) = Inr (d1, i1)"
    by (auto simp: unpack_numeric_def split: list.splits arg.splits sum.splits)
  then have "i1 = inp + (unat cnt - 0) * k"
    by (rule for_loop_advance [rotated]) (auto dest: prim)
  then show ?thesis by (simp add: mult.commute)
next
  case False
  with assms(2) have "cnt = 1" by (simp add: count_one)
  with False assms(3) show ?thesis
    by (auto simp: unpack_numeric_def split: list.splits arg.splits sum.splits dest: prim)
qed

lemma unpack_le_advance: "unpack_le be src p d doff n = Inr (d1, p1) \<Longrightarrow> p1 = p + n"
  by (auto simp: unpack_le_def split: sum.splits)

lemma unpack_be_advance: "unpack_be be src p d doff n = Inr (d1, p1) \<Longrightarrow> p1 = p + n"
  by (auto simp: unpack_be_def split: sum.splits)

lemma unpack_float16_le_advance:
  "cstruct_unpack_float16_le be src p d doff = Inr (d1, p1) \<Longrightarrow> p1 = p + 2"
  by (auto simp: cstruct_unpack_float16_le_def split: sum.splits option.splits)

lemma unpack_float16_be_advance:
  "cstruct_unpack_float16_be be src p d doff = Inr (d1, p1) \<Longrightarrow> p1 = p + 2"
  by (auto simp: cstruct_unpack_float16_be_def split: sum.splits option.splits)

lemma unpack_float64_le_advance:
  "cstruct_unpack_float64_le be src p d doff = Inr (d1, p1) \<Longrightarrow> p1 = p + 8"
  by (auto simp: cstruct_unpack_float64_le_def split: sum.splits)

lemma unpack_float64_be_advance:
  "cstruct_unpack_float64_be be src p d doff = Inr (d1, p1) \<Longrightarrow> p1 = p + 8"
  by (auto simp: cstruct_unpack_float64_be_def split: sum.splits)

lemma unpack_string_advance:
  "cstruct_unpack_string src p v sz = Inr (v1, p1) \<Longrightarrow> p1 = p + unat sz"
  by (auto simp: cstruct_unpack_string_def split: sum.splits if_splits)

lemma unpack_token_advance:
  assumes "token_ok tok" and "unpack_token be tok src inp args = Inr (w, i1, a1)"
  shows "i1 = inp + unat (tok_size tok) * unat (tok_count tok)"
proof -
  from assms(1) have c: "tok_count tok \<noteq> 0" by (simp add: token_ok_def)
  note adv = unpack_numeric_advance [OF _ c]
  show ?thesis
  proof (cases "tok_type tok")
    case CSTRUCT_TYPE_PADDING
    with assms show ?thesis
      by (auto simp: unpack_token_def token_ok_def)
  next
    case CSTRUCT_TYPE_STRING
    with assms show ?thesis
      by (auto simp: unpack_token_def token_ok_def
               split: list.splits arg.splits sum.splits dest: unpack_string_advance)
  next
    case CSTRUCT_TYPE_INT8
    with assms have "i1 = inp + 1 * unat (tok_count tok)"
      by (intro adv [where k = 1])
         (auto simp: unpack_token_def cstruct_unpack_int8_def split: if_splits)
    with CSTRUCT_TYPE_INT8 assms(1) show ?thesis by (simp add: token_ok_def)
  next
    case CSTRUCT_TYPE_UINT8
    with assms have "i1 = inp + 1 * unat (tok_count tok)"
      by (intro adv [where k = 1])
         (auto simp: unpack_token_def cstruct_unpack_uint8_def split: if_splits)
    with CSTRUCT_TYPE_UINT8 assms(1) show ?thesis by (simp add: token_ok_def)
  next
    case CSTRUCT_TYPE_INT16
    with assms have "i1 = inp + 2 * unat (tok_count tok)"
      by (intro adv [where k = 2])
         (auto simp: unpack_token_def unpack_prim_defs split: if_splits
               dest: unpack_le_advance unpack_be_advance unpack_float16_le_advance
                     unpack_float16_be_advance unpack_float64_le_advance
                     unpack_float64_be_advance)
    with CSTRUCT_TYPE_INT16 assms(1) show ?thesis by (simp add: token_ok_def)
  next
    case CSTRUCT_TYPE_UINT16
    with assms have "i1 = inp + 2 * unat (tok_count tok)"
      by (intro adv [where k = 2])
         (auto simp: unpack_token_def unpack_prim_defs split: if_splits
               dest: unpack_le_advance unpack_be_advance unpack_float16_le_advance
                     unpack_float16_be_advance unpack_float64_le_advance
                     unpack_float64_be_advance)
    with CSTRUCT_TYPE_UINT16 assms(1) show ?thesis by (simp add: token_ok_def)
  next
    case CSTRUCT_TYPE_INT32
    with assms have "i1 = inp + 4 * unat (tok_count tok)"
      by (intro adv [where k = 4])
         (auto simp: unpack_token_def unpack_prim_defs split: if_splits
               dest: unpack_le_advance unpack_be_advance unpack_float16_le_advance
                     unpack_float16_be_advance unpack_float64_le_advance
                     unpack_float64_be_advance)
    with CSTRUCT_TYPE_INT32 assms(1) show ?thesis by (simp add: token_ok_def)
  next
    case CSTRUCT_TYPE_UINT32
    with assms have "i1 = inp + 4 * unat (tok_count tok)"
      by (intro adv [where k = 4])
         (auto simp: unpack_token_def unpack_prim_defs split: if_splits
               dest: unpack_le_advance unpack_be_advance unpack_float16_le_advance
                     unpack_float16_be_advance unpack_float64_le_advance
                     unpack_float64_be_advance)
    with CSTRUCT_TYPE_UINT32 assms(1) show ?thesis by (simp add: token_ok_def)
  next
    case CSTRUCT_TYPE_INT64
    with assms have "i1 = inp + 8 * unat (tok_count tok)"
      by (intro adv [where k = 8])
         (auto simp: unpack_token_def unpack_prim_defs split: if_splits
               dest: unpack_le_advance unpack_be_advance unpack_float16_le_advance
                     unpack_float16_be_advance unpack_float64_le_advance
                     unpack_float64_be_advance)
    with CSTRUCT_TYPE_INT64 assms(1) show ?thesis by (simp add: token_ok_def)
  next
    case CSTRUCT_TYPE_UINT64
    with assms have "i1 = inp + 8 * unat (tok_count tok)"
      by (intro adv [where k = 8])
         (auto simp: unpack_token_def unpack_prim_defs split: if_splits
               dest: unpack_le_advance unpack_be_advance unpack_float16_le_advance
                     unpack_float16_be_advance unpack_float64_le_advance
                     unpack_float64_be_advance)
    with CSTRUCT_TYPE_UINT64 assms(1) show ?thesis by (simp add: token_ok_def)
  next
    case CSTRUCT_TYPE_INT128
    with assms have "i1 = inp + 16 * unat (tok_count tok)"
      by (intro adv [where k = 16])
         (auto simp: unpack_token_def unpack_prim_defs split: if_splits
               dest: unpack_le_advance unpack_be_advance unpack_float16_le_advance
                     unpack_float16_be_advance unpack_float64_le_advance
                     unpack_float64_be_advance)
    with CSTRUCT_TYPE_INT128 assms(1) show ?thesis by (simp add: token_ok_def)
  next
    case CSTRUCT_TYPE_UINT128
    with assms have "i1 = inp + 16 * unat (tok_count tok)"
      by (intro adv [where k = 16])
         (auto simp: unpack_token_def unpack_prim_defs split: if_splits
               dest: unpack_le_advance unpack_be_advance unpack_float16_le_advance
                     unpack_float16_be_advance unpack_float64_le_advance
                     unpack_float64_be_advance)
    with CSTRUCT_TYPE_UINT128 assms(1) show ?thesis by (simp add: token_ok_def)
  next
    case CSTRUCT_TYPE_FLOAT16
    with assms have "i1 = inp + 2 * unat (tok_count tok)"
      by (intro adv [where k = 2])
         (auto simp: unpack_token_def unpack_prim_defs split: if_splits
               dest: unpack_le_advance unpack_be_advance unpack_float16_le_advance
                     unpack_float16_be_advance unpack_float64_le_advance
                     unpack_float64_be_advance)
    with CSTRUCT_TYPE_FLOAT16 assms(1) show ?thesis by (simp add: token_ok_def)
  next
    case CSTRUCT_TYPE_FLOAT32
    with assms have "i1 = inp + 4 * unat (tok_count tok)"
      by (intro adv [where k = 4])
         (auto simp: unpack_token_def unpack_prim_defs split: if_splits
               dest: unpack_le_advance unpack_be_advance unpack_float16_le_advance
                     unpack_float16_be_advance unpack_float64_le_advance
                     unpack_float64_be_advance)
    with CSTRUCT_TYPE_FLOAT32 assms(1) show ?thesis by (simp add: token_ok_def)
  next
    case CSTRUCT_TYPE_FLOAT64
    with assms have "i1 = inp + 8 * unat (tok_count tok)"
      by (intro adv [where k = 8])
         (auto simp: unpack_token_def unpack_prim_defs split: if_splits
               dest: unpack_le_advance unpack_be_advance unpack_float16_le_advance
                     unpack_float16_be_advance unpack_float64_le_advance
                     unpack_float64_be_advance)
    with CSTRUCT_TYPE_FLOAT64 assms(1) show ?thesis by (simp add: token_ok_def)
  qed
qed

lemma pack_loop_offset:
  "pack_loop be dstlen fmt ce mem out args = Inr (m, Some off) \<Longrightarrow>
   \<exists>ts. tokens fmt ce = Some ts \<and> off = out + packed_size ts"
proof (induction be dstlen fmt ce mem out args rule: pack_loop.induct)
  case (1 be dstlen fmt ce mem out args)
  show ?case
  proof (cases "fmt = []")
    case True
    with "1.prems" show ?thesis by (simp add: packed_size_def)
  next
    case False
    with "1.prems" obtain next_fmt tok ce1 mem1 out1 args1 where
      pt: "parse_token fmt ce = Some (next_fmt, tok, ce1)"
      and chk: "\<not> dstlen - of_nat out < tok_size tok * tok_count tok"
      and tk: "pack_token be tok mem out args = Inr (mem1, out1, args1)"
      and rest: "pack_loop be dstlen next_fmt ce1 mem1 out1 args1 = Inr (m, Some off)"
      by (subst (asm) pack_loop.simps) (auto split: option.splits if_splits sum.splits)
    from "1.IH" [OF False pt refl refl chk tk refl refl rest]
    obtain ts where ts: "tokens next_fmt ce1 = Some ts" and off: "off = out1 + packed_size ts"
      by blast
    from pack_token_advance [OF parse_token_ok [OF pt] tk]
    have "out1 = out + unat (tok_size tok) * unat (tok_count tok)" .
    with ts off pt show ?thesis
      by (simp add: tokens_step packed_size_def)
  qed
qed

lemma unpack_loop_offset:
  "unpack_loop be srclen fmt ce src inp args outs = Inr (r, Some off) \<Longrightarrow>
   \<exists>ts. tokens fmt ce = Some ts \<and> off = inp + packed_size ts"
proof (induction be srclen fmt ce src inp args outs rule: unpack_loop.induct)
  case (1 be srclen fmt ce src inp args outs)
  show ?case
  proof (cases "fmt = []")
    case True
    with "1.prems" show ?thesis by (simp add: packed_size_def)
  next
    case False
    with "1.prems" obtain next_fmt tok ce1 written inp1 args1 where
      pt: "parse_token fmt ce = Some (next_fmt, tok, ce1)"
      and chk: "\<not> srclen - of_nat inp < tok_size tok * tok_count tok"
      and tk: "unpack_token be tok src inp args = Inr (written, inp1, args1)"
      and rest: "unpack_loop be srclen next_fmt ce1 src inp1 args1 (outs @ written)
                   = Inr (r, Some off)"
      by (subst (asm) unpack_loop.simps) (auto split: option.splits if_splits sum.splits)
    from "1.IH" [OF False pt refl refl chk tk refl refl rest]
    obtain ts where ts: "tokens next_fmt ce1 = Some ts" and off: "off = inp1 + packed_size ts"
      by blast
    from unpack_token_advance [OF parse_token_ok [OF pt] tk]
    have "inp1 = inp + unat (tok_size tok) * unat (tok_count tok)" .
    with ts off pt show ?thesis
      by (simp add: tokens_step packed_size_def)
  qed
qed

text \<open>
  Claim C10. For every format string on which \<open>cstruct_pack\<close> and \<open>cstruct_unpack\<close> both
  succeed, with whatever buffers, arguments and hosts, the two returned end pointers lie
  at the same offset from their buffer's start, and that offset is the sum over all
  tokens of the format of \<open>element_size \<times> repeat_count\<close>.
\<close>

theorem pack_unpack_same_advance:
  assumes "cstruct_pack be dst dstlen fmt args = Inr (m, Some p)"
    and "cstruct_unpack be1 src srclen fmt dests = Inr (r, Some u)"
  shows "p = u \<and> (\<exists>ts. tokens fmt CSTRUCT_ENDIAN_LITTLE = Some ts \<and> p = packed_size ts)"
proof -
  from assms(1) obtain ts where
    ts: "tokens fmt CSTRUCT_ENDIAN_LITTLE = Some ts" and p: "p = packed_size ts"
    by (auto simp: cstruct_pack_def cstruct_pack_v_def dest: pack_loop_offset)
  from assms(2) obtain ts1 where
    "tokens fmt CSTRUCT_ENDIAN_LITTLE = Some ts1" and "u = packed_size ts1"
    by (auto simp: cstruct_unpack_def cstruct_unpack_v_def dest: unpack_loop_offset)
  with ts p show ?thesis by simp
qed

theorem pack_unpack_same_advance_witness:
  "cstruct_pack False (replicate 12 0) 12 ''H2x>2I'' [Int_arg 1, Ptr_arg [1, 2, 3, 4, 5, 6, 7, 8]]
     = Inr ([1, 0, 0, 0, 4, 3, 2, 1, 8, 7, 6, 5], Some 12) \<and>
   cstruct_unpack True [1, 0, 0, 0, 4, 3, 2, 1, 8, 7, 6, 5] 12 ''H2x>2I''
       [Ptr_arg [0, 0], Ptr_arg (replicate 8 0)]
     = Inr ([Ptr_arg [0, 1], Ptr_arg [4, 3, 2, 1, 8, 7, 6, 5]], Some 12) \<and>
   (\<exists>ts. tokens ''H2x>2I'' CSTRUCT_ENDIAN_LITTLE = Some ts \<and> (12 :: nat) = packed_size ts)"
proof -
  have p: "cstruct_pack False (replicate 12 0) 12 ''H2x>2I''
             [Int_arg 1, Ptr_arg [1, 2, 3, 4, 5, 6, 7, 8]]
           = Inr ([1, 0, 0, 0, 4, 3, 2, 1, 8, 7, 6, 5], Some 12)"
    by (simp add: pack_eval for_loop_step for_loop_done arr_elem_def obj_value_def
          replicate_numeral_Cons)
  have u: "cstruct_unpack True [1, 0, 0, 0, 4, 3, 2, 1, 8, 7, 6, 5] 12 ''H2x>2I''
             [Ptr_arg [0, 0], Ptr_arg (replicate 8 0)]
           = Inr ([Ptr_arg [0, 1], Ptr_arg [4, 3, 2, 1, 8, 7, 6, 5]], Some 12)"
    by (simp add: unpack_eval for_loop_step for_loop_done replicate_numeral_Cons)
  from pack_unpack_same_advance [OF p u] p u show ?thesis by simp
qed

section \<open>Round trips that hold\<close>

lemma roundtrip_int8:
  assumes "fmt \<in> single_formats CHR ''b'' \<union> single_formats CHR ''B''"
    and "length d = 1" and "1 \<le> length mem" and "1 \<le> dstlen"
  shows "\<exists>mem1. cstruct_pack be mem dstlen fmt [Int_arg i] = Inr (mem1, Some 1) \<and>
           cstruct_unpack be mem1 dstlen fmt [Ptr_arg d]
             = Inr ([Ptr_arg (obj_repr be 1 (word_of_int i :: 8 word))], Some 1)"
proof -
  let ?v = "word_of_int i :: 8 word"
  from assms(2) obtain d0 where d: "d = [d0]" by (cases d) auto
  from assms(3) obtain m0 ms where m: "mem = m0 # ms" by (cases mem) auto
  have p: "cstruct_pack be mem dstlen fmt [Int_arg i] = Inr (?v # ms, Some 1)"
    using assms m
    by (auto simp: single_formats_def pack_eval not_less cstruct_pack_int8_def
          cstruct_pack_uint8_def)
  have u: "cstruct_unpack be (?v # ms) dstlen fmt [Ptr_arg d]
             = Inr ([Ptr_arg (obj_repr be 1 ?v)], Some 1)"
    using assms d
    by (auto simp: single_formats_def unpack_eval not_less obj_repr_def cstruct_unpack_int8_def
          cstruct_unpack_uint8_def)
  from p u show ?thesis by blast
qed

lemma roundtrip_int16:
  assumes "fmt \<in> single_formats CHR ''h'' \<union> single_formats CHR ''H''"
    and "length d = 2" and "2 \<le> length mem" and "2 \<le> dstlen"
  shows "\<exists>mem1. cstruct_pack be mem dstlen fmt [Int_arg i] = Inr (mem1, Some 2) \<and>
           cstruct_unpack be mem1 dstlen fmt [Ptr_arg d]
             = Inr ([Ptr_arg (obj_repr be 2 (word_of_int i :: 16 word))], Some 2)"
proof -
  let ?v = "word_of_int i :: 16 word"
  let ?w = "if hd fmt = CHR ''>'' then rev (le_bytes 2 ?v) else le_bytes 2 ?v"
  have len: "Suc (Suc 0) = (2 :: nat)" by simp
  have p: "cstruct_pack be mem dstlen fmt [Int_arg i] = Inr (?w @ drop (length ?w) mem, Some 2)"
    using assms by (auto simp: single_formats_def pack_eval not_less len)
  have u: "cstruct_unpack be (?w @ drop (length ?w) mem) dstlen fmt [Ptr_arg d]
             = Inr ([Ptr_arg (obj_repr be 2 ?v)], Some 2)"
    using assms by (auto simp: single_formats_def unpack_eval not_less obj_repr_def)
  from p u show ?thesis by blast
qed

lemma roundtrip_int32:
  assumes "fmt \<in> single_formats CHR ''i'' \<union> single_formats CHR ''I''"
    and "length d = 4" and "4 \<le> length mem" and "4 \<le> dstlen"
  shows "\<exists>mem1. cstruct_pack be mem dstlen fmt [Int32_arg v] = Inr (mem1, Some 4) \<and>
           cstruct_unpack be mem1 dstlen fmt [Ptr_arg d]
             = Inr ([Ptr_arg (obj_repr be 4 (v :: 32 word))], Some 4)"
proof -
  let ?v = "v :: 32 word"
  let ?w = "if hd fmt = CHR ''>'' then rev (le_bytes 4 ?v) else le_bytes 4 ?v"
  have len: "Suc (Suc (Suc (Suc 0))) = (4 :: nat)" by simp
  have p: "cstruct_pack be mem dstlen fmt [Int32_arg v] = Inr (?w @ drop (length ?w) mem, Some 4)"
    using assms by (auto simp: single_formats_def pack_eval not_less len)
  have u: "cstruct_unpack be (?w @ drop (length ?w) mem) dstlen fmt [Ptr_arg d]
             = Inr ([Ptr_arg (obj_repr be 4 ?v)], Some 4)"
    using assms by (auto simp: single_formats_def unpack_eval not_less obj_repr_def)
  from p u show ?thesis by blast
qed

lemma roundtrip_int64:
  assumes "fmt \<in> single_formats CHR ''q'' \<union> single_formats CHR ''Q''"
    and "length d = 8" and "8 \<le> length mem" and "8 \<le> dstlen"
  shows "\<exists>mem1. cstruct_pack be mem dstlen fmt [Int64_arg v] = Inr (mem1, Some 8) \<and>
           cstruct_unpack be mem1 dstlen fmt [Ptr_arg d]
             = Inr ([Ptr_arg (obj_repr be 8 (v :: 64 word))], Some 8)"
proof -
  let ?v = "v :: 64 word"
  let ?w = "if hd fmt = CHR ''>'' then rev (le_bytes 8 ?v) else le_bytes 8 ?v"
  have len: "Suc (Suc (Suc (Suc (Suc (Suc (Suc (Suc 0))))))) = (8 :: nat)" by simp
  have p: "cstruct_pack be mem dstlen fmt [Int64_arg v] = Inr (?w @ drop (length ?w) mem, Some 8)"
    using assms by (auto simp: single_formats_def pack_eval not_less len)
  have u: "cstruct_unpack be (?w @ drop (length ?w) mem) dstlen fmt [Ptr_arg d]
             = Inr ([Ptr_arg (obj_repr be 8 ?v)], Some 8)"
    using assms by (auto simp: single_formats_def unpack_eval not_less obj_repr_def)
  from p u show ?thesis by blast
qed

lemma roundtrip_float32:
  assumes "fmt \<in> single_formats CHR ''f''"
    and "length d = 4" and "4 \<le> length mem" and "4 \<le> dstlen"
  shows "\<exists>mem1. cstruct_pack be mem dstlen fmt [Float_arg v] = Inr (mem1, Some 4) \<and>
           cstruct_unpack be mem1 dstlen fmt [Ptr_arg d]
             = Inr ([Ptr_arg (obj_repr be 4 (v :: 32 word))], Some 4)"
proof -
  let ?v = "v :: 32 word"
  let ?w = "if hd fmt = CHR ''>'' then rev (le_bytes 4 ?v) else le_bytes 4 ?v"
  have len: "Suc (Suc (Suc (Suc 0))) = (4 :: nat)" by simp
  have p: "cstruct_pack be mem dstlen fmt [Float_arg v] = Inr (?w @ drop (length ?w) mem, Some 4)"
    using assms by (auto simp: single_formats_def pack_eval not_less len)
  have u: "cstruct_unpack be (?w @ drop (length ?w) mem) dstlen fmt [Ptr_arg d]
             = Inr ([Ptr_arg (obj_repr be 4 ?v)], Some 4)"
    using assms by (auto simp: single_formats_def unpack_eval not_less obj_repr_def)
  from p u show ?thesis by blast
qed

lemma roundtrip_float64:
  assumes "fmt \<in> single_formats CHR ''d''"
    and "length d = 8" and "8 \<le> length mem" and "8 \<le> dstlen"
  shows "\<exists>mem1. cstruct_pack be mem dstlen fmt [Double_arg v] = Inr (mem1, Some 8) \<and>
           cstruct_unpack be mem1 dstlen fmt [Ptr_arg d]
             = Inr ([Ptr_arg (obj_repr be 8 (v :: 64 word))], Some 8)"
proof -
  let ?v = "v :: 64 word"
  let ?w = "if hd fmt = CHR ''>'' then rev (le_bytes 8 ?v) else le_bytes 8 ?v"
  have len: "Suc (Suc (Suc (Suc (Suc (Suc (Suc (Suc 0))))))) = (8 :: nat)" by simp
  have p: "cstruct_pack be mem dstlen fmt [Double_arg v] = Inr (?w @ drop (length ?w) mem, Some 8)"
    using assms by (auto simp: single_formats_def pack_eval not_less len)
  have u: "cstruct_unpack be (?w @ drop (length ?w) mem) dstlen fmt [Ptr_arg d]
             = Inr ([Ptr_arg (obj_repr be 8 ?v)], Some 8)"
    using assms by (auto simp: single_formats_def unpack_eval not_less obj_repr_def
          cstruct_unpack_float64_le_def cstruct_unpack_float64_be_def assign_def
          replicate_numeral_Cons)
  from p u show ?thesis by blast
qed

lemma roundtrip_int128:
  assumes "fmt \<in> single_formats CHR ''t'' \<union> single_formats CHR ''T''"
    and "length v = 16" and "length d = 16" and "16 \<le> length mem" and "16 \<le> dstlen"
  shows "\<exists>mem1. cstruct_pack be mem dstlen fmt [Ptr_arg v] = Inr (mem1, Some 16) \<and>
           cstruct_unpack be mem1 dstlen fmt [Ptr_arg d] = Inr ([Ptr_arg v], Some 16)"
proof -
  let ?w = "if be = (hd fmt = CHR ''>'') then v else rev v"
  have p: "cstruct_pack be mem dstlen fmt [Ptr_arg v] = Inr (?w @ drop 16 mem, Some 16)"
    using assms unfolding single_formats_def
    by (elim UnE insertE emptyE; cases be;
        simp add: pack_eval not_less pack_le_def pack_be_def
          cstruct_store_le_eq cstruct_store_be_eq)
  have u: "cstruct_unpack be (?w @ drop 16 mem) dstlen fmt [Ptr_arg d]
             = Inr ([Ptr_arg v], Some 16)"
    using assms unfolding single_formats_def
    by (elim UnE insertE emptyE; cases be; simp add: unpack_eval not_less)
  from p u show ?thesis by blast
qed

lemma roundtrip_float16_samples:
  assumes "v \<in> half_samples" and "fmt \<in> single_formats CHR ''e''"
  shows "\<exists>w. cstruct_pack False [a0, a1] 2 fmt [Float_arg v] = Inr (w, Some 2) \<and>
           cstruct_unpack False w 2 fmt [Ptr_arg [d0, d1, d2, d3]]
             = Inr ([Ptr_arg (obj_repr False 4 v)], Some 2)"
  using assms
  by (auto simp: half_samples_def single_formats_def pack_eval unpack_eval
        cstruct_float_to_half_def cstruct_unpack_float16_le_def cstruct_unpack_float16_be_def
        obj_value_def cstruct_half_to_float_def half_normalize_shift half_normalize_stop
        assign_def obj_repr_def pack_le_def pack_be_def cstruct_store_le_eq cstruct_store_be_eq)

section \<open>Half precision on a little-endian host\<close>

text \<open>
  The two converters are inverse to each other on the halves: the decoder returns for
  every 16-bit pattern (the normalisation loop of a subnormal stops after at most ten
  shifts), and the encoder maps the decoded binary32 value back to the pattern it came
  from, for zeros, subnormals, normals, infinities and NaNs alike.
\<close>

lemma bit_0x400: "(frac :: 32 word) AND 0x400 = 0 \<longleftrightarrow> \<not> bit frac 10"
proof -
  have "(0x400 :: 32 word) = 2 ^ 10" by simp
  then show ?thesis by (simp only: and_exp_eq_0_iff_not_bit)
qed

text \<open>
  The normalisation loop ends after \<open>k\<close> shifts when the highest set bit of \<open>frac\<close> is
  bit \<open>10 - k\<close>.
\<close>

lemma half_normalize_result:
  fixes frac expo :: "32 word"
  assumes "k \<le> 10" and "bit frac (10 - k)" and "\<And>j. 10 - k < j \<Longrightarrow> j \<le> 10 \<Longrightarrow> \<not> bit frac j"
  shows "half_normalize frac expo = Some (push_bit k frac, expo - of_nat k)"
  using assms
proof (induction k arbitrary: frac expo)
  case 0
  then show ?case by (simp add: half_normalize_stop bit_0x400)
next
  case (Suc k)
  from Suc.prems(1) Suc.prems(3) [of 10] have clear: "\<not> bit frac 10" by simp
  have k: "k \<le> 10" using Suc.prems(1) by simp
  have sh: "bit (push_bit 1 frac) j \<longleftrightarrow> 0 < j \<and> j < 32 \<and> bit frac (j - 1)" for j
    by (cases j) (auto simp: bit_push_bit_iff possible_bit_word simp del: push_bit_Suc)
  have top: "bit (push_bit 1 frac) (10 - k)"
    unfolding sh using Suc.prems(1,2) by simp
  have above: "\<not> bit (push_bit 1 frac) j" if "10 - k < j" and "j \<le> 10" for j
  proof -
    from that Suc.prems(1) have "10 - Suc k < j - 1" "j - 1 \<le> 10" by simp_all
    with Suc.prems(3) have "\<not> bit frac (j - 1)" by blast
    then show ?thesis unfolding sh by simp
  qed
  from Suc.IH [OF k top above]
  have "half_normalize (push_bit 1 frac) (expo - 1)
          = Some (push_bit k (push_bit 1 frac), expo - 1 - of_nat k)" by blast
  moreover have "push_bit k (push_bit 1 frac) = push_bit (Suc k) frac"
    by (simp add: push_bit_push_bit del: push_bit_Suc)
  moreover have "expo - 1 - of_nat k = expo - of_nat (Suc k)" by simp
  moreover from clear have "half_normalize frac expo = half_normalize (push_bit 1 frac) (expo - 1)"
    by (simp add: half_normalize_shift bit_0x400)
  ultimately show ?case by (simp only:)
qed

lemma highest_bit:
  fixes f :: "32 word"
  assumes "f \<noteq> 0"
  shows "\<exists>p. bit f p \<and> (\<forall>j>p. \<not> bit f j)"
proof -
  let ?S = "{j. bit f j}"
  have fin: "finite ?S" by simp
  from assms have ne: "?S \<noteq> {}"
    by (auto simp: bit_eq_iff)
  let ?p = "Max ?S"
  from Max_in [OF fin ne] have "bit f ?p" by simp
  moreover have "\<not> bit f j" if "?p < j" for j
  proof
    assume "bit f j"
    then have "j \<le> ?p" by (intro Max_ge fin) simp
    with that show False by simp
  qed
  ultimately show ?thesis by blast
qed

lemma sint_small:
  "- (2 ^ 31) \<le> n \<Longrightarrow> n < 2 ^ 31 \<Longrightarrow> sint (word_of_int n :: 32 word) = n"
  by (simp add: signed_of_int signed_take_bit_int_eq_self)

text \<open>The branches of \<open>cstruct_float_to_half\<close> on a little-endian host, by exponent field.\<close>

lemma float_to_half_underflow:
  assumes "drop_bit 23 v AND 0xFF = (0 :: 32 word)"
  shows "cstruct_float_to_half False v = ucast (drop_bit 16 v AND 0x8000)"
  using assms by (simp add: cstruct_float_to_half_def)

lemma float_to_half_normal:
  assumes "drop_bit 23 v AND 0xFF = (word_of_int e :: 32 word) + 112" and "0 < e" and "e < 0x1F"
  shows "cstruct_float_to_half False v
           = ucast ((drop_bit 16 v AND 0x8000) OR push_bit 10 (word_of_int e)
                    OR (drop_bit 13 v AND 0x3FF))"
proof -
  have "sint (word_of_int e :: 32 word) = e"
    using assms(2,3) by (intro sint_small) simp_all
  with assms show ?thesis
    by (simp add: cstruct_float_to_half_def)
qed

lemma float_to_half_subnormal:
  assumes "drop_bit 23 v AND 0xFF = (word_of_int (1 - int k) :: 32 word) + 112"
    and "1 \<le> k" and "k \<le> 10"
  shows "cstruct_float_to_half False v
           = ucast ((drop_bit 16 v AND 0x8000)
                    OR drop_bit 13 (drop_bit k ((v AND 0x7FFFFF) OR 0x800000) + 0x1000))"
proof -
  have "sint (word_of_int (1 - int k) :: 32 word) = 1 - int k"
    using assms(2,3) by (intro sint_small) simp_all
  with assms show ?thesis
    by (simp add: cstruct_float_to_half_def Let_def)
qed

lemma bit_0x8000: "bit (0x8000 :: 32 word) n \<longleftrightarrow> n = 15"
proof -
  have "(0x8000 :: 32 word) = 2 ^ 15" by simp
  then show ?thesis by (simp only: bit_exp_iff) (auto simp: possible_bit_word)
qed

lemma bit_32768_int: "bit (32768 :: int) n \<longleftrightarrow> n = 15"
proof -
  have "(32768 :: int) = 2 ^ 15" by simp
  then show ?thesis by (simp only: bit_exp_iff) simp
qed

lemma bit_32768_nat: "bit (32768 :: nat) n \<longleftrightarrow> n = 15"
proof -
  have "(32768 :: nat) = 2 ^ 15" by simp
  then show ?thesis by (simp only: bit_exp_iff) simp
qed

lemma mask_1: "(1 :: 32 word) = mask 1" by (simp add: mask_eq_exp_minus_1)
lemma mask_5: "(0x1F :: 32 word) = mask 5" by (simp add: mask_eq_exp_minus_1)
lemma mask_8: "(0xFF :: 32 word) = mask 8" by (simp add: mask_eq_exp_minus_1)

text \<open>
  The fields of a binary32 pattern put together from a sign bit, an exponent below 256
  and ten mantissa bits.
\<close>

lemma pattern_fields:
  fixes s x f :: "32 word"
  assumes "s AND 1 = s" and "x AND 0xFF = x" and "f AND 0x3FF = f"
  defines "v \<equiv> push_bit 31 s OR push_bit 23 x OR push_bit 13 f"
  shows "drop_bit 16 v AND 0x8000 = push_bit 15 s"
    and "drop_bit 23 v AND 0xFF = x"
    and "drop_bit 13 v AND 0x3FF = f"
    and "v AND 0x7FFFFF = push_bit 13 f"
proof -
  have "bit (s AND mask 1) n \<Longrightarrow> n < 1" for n by (simp add: bit_simps)
  then have s: "bit s n \<Longrightarrow> n = 0" for n
    using assms(1) by (simp add: mask_1 [symmetric])
  have "bit (x AND mask 8) n \<Longrightarrow> n < 8" for n by (simp add: bit_simps)
  then have x: "bit x n \<Longrightarrow> n < 8" for n
    using assms(2) by (simp add: mask_8 [symmetric])
  have "bit (f AND mask 10) n \<Longrightarrow> n < 10" for n by (simp add: bit_simps)
  then have f: "bit f n \<Longrightarrow> n < 10" for n
    using assms(3) by (simp add: mask_10 [symmetric])
  show "drop_bit 16 v AND 0x8000 = push_bit 15 s"
    unfolding v_def
    by (rule bit_eqI)
       (auto simp: bit_simps bit_0x8000 bit_32768_int bit_32768_nat dest: s x f)
  show "drop_bit 23 v AND 0xFF = x"
    unfolding v_def mask_8
    by (rule bit_eqI) (auto simp: bit_simps dest: s x f)
  show "drop_bit 13 v AND 0x3FF = f"
    unfolding v_def mask_10
    by (rule bit_eqI) (auto simp: bit_simps dest: s x f)
  show "v AND 0x7FFFFF = push_bit 13 f"
    unfolding v_def mask_23
    by (rule bit_eqI) (auto simp: bit_simps dest: s x f)
qed

lemma bit_2p23_word: "bit (8388608 :: 32 word) n \<longleftrightarrow> n = 23"
proof -
  have "(8388608 :: 32 word) = 2 ^ 23" by simp
  then show ?thesis by (simp only: bit_exp_iff) (auto simp: possible_bit_word)
qed

lemma bit_2p23_int: "bit (8388608 :: int) n \<longleftrightarrow> n = 23"
proof -
  have "(8388608 :: int) = 2 ^ 23" by simp
  then show ?thesis by (simp only: bit_exp_iff) simp
qed

lemma bit_2p23_nat: "bit (8388608 :: nat) n \<longleftrightarrow> n = 23"
proof -
  have "(8388608 :: nat) = 2 ^ 23" by simp
  then show ?thesis by (simp only: bit_exp_iff) simp
qed

lemma bit_2p12_word: "bit (4096 :: 32 word) n \<longleftrightarrow> n = 12"
proof -
  have "(4096 :: 32 word) = 2 ^ 12" by simp
  then show ?thesis by (simp only: bit_exp_iff) (auto simp: possible_bit_word)
qed

lemma bit_2p12_int: "bit (4096 :: int) n \<longleftrightarrow> n = 12"
proof -
  have "(4096 :: int) = 2 ^ 12" by simp
  then show ?thesis by (simp only: bit_exp_iff) simp
qed

lemma bit_2p12_nat: "bit (4096 :: nat) n \<longleftrightarrow> n = 12"
proof -
  have "(4096 :: nat) = 2 ^ 12" by simp
  then show ?thesis by (simp only: bit_exp_iff) simp
qed

lemmas bit_consts = bit_0x8000 bit_32768_int bit_32768_nat bit_2p23_word bit_2p23_int
  bit_2p23_nat bit_2p12_word bit_2p12_int bit_2p12_nat

text \<open>Rounding a subnormal that needs no rounding.\<close>

lemma subnormal_mantissa:
  fixes F :: "32 word"
  assumes "1 \<le> k" and "k \<le> 10" and "bit F (10 - k)"
    and above: "\<And>j. 10 - k < j \<Longrightarrow> \<not> bit F j"
  shows "drop_bit 13 (drop_bit k (push_bit 13 (push_bit k F AND 0x3FF) OR 0x800000) + 0x1000) = F"
proof -
  have hi: "bit F j \<Longrightarrow> j \<le> 10 - k" for j
    using above [of j] by (cases "10 - k < j") auto
  have 1: "push_bit 13 (push_bit k F AND 0x3FF) OR 0x800000 = push_bit (13 + k) F"
    unfolding mask_10
  proof (rule bit_eqI)
    fix n
    assume "possible_bit TYPE(32 word) n"
    then have n: "n < 32" by (simp add: possible_bit_word)
    show "bit (push_bit 13 (push_bit k F AND mask 10) OR 0x800000) n
            \<longleftrightarrow> bit (push_bit (13 + k) F) n"
    proof (cases "n = 23")
      case True
      with assms(1,2,3) show ?thesis
        by (simp add: bit_simps bit_consts)
    next
      case False
      with n assms(1,2) show ?thesis
        by (auto simp: bit_simps bit_consts dest: hi)
    qed
  qed
  have 2: "drop_bit k (push_bit (13 + k) F) = push_bit 13 F"
    by (rule bit_eqI) (use assms(1,2) in \<open>auto simp: bit_simps dest: hi\<close>)
  have "push_bit 13 F AND 0x1000 = 0"
    by (rule bit_eqI) (auto simp: bit_simps bit_consts)
  then have 3: "push_bit 13 F + 0x1000 = push_bit 13 F OR 0x1000"
    by (rule disjunctive_add_eq_or)
  have 4: "drop_bit 13 (push_bit 13 F OR 0x1000) = F"
    by (rule bit_eqI) (use assms(1,2) in \<open>auto simp: bit_simps bit_consts dest: hi\<close>)
  show ?thesis by (simp only: 1 2 3 4)
qed

lemma small_word:
  "0 \<le> n \<Longrightarrow> n < 256 \<Longrightarrow> (word_of_int n :: 32 word) AND 0xFF = word_of_int n"
proof -
  assume "0 \<le> n" "n < 256"
  then have "uint (word_of_int n :: 32 word) = n"
    by (simp add: uint_word_of_int take_bit_int_eq_self)
  with \<open>n < 256\<close> show ?thesis
    unfolding mask_8 by (simp add: mask_eq_iff)
qed

text \<open>
  Every half decodes, and the binary32 value it decodes to encodes back to it
  (little-endian host).
\<close>

lemma half_roundtrip:
  "\<exists>v. cstruct_half_to_float False h = Some v \<and> cstruct_float_to_half False v = h"
proof -
  define S :: "32 word" where "S = drop_bit 15 (ucast h) AND 1"
  define E :: "32 word" where "E = drop_bit 10 (ucast h) AND 0x1F"
  define F :: "32 word" where "F = ucast h AND 0x3FF"
  have S: "S AND 1 = S" and F: "F AND 0x3FF = F"
    by (simp_all add: S_def F_def and.assoc)
  have fields: "ucast (push_bit 15 S OR push_bit 10 E OR F) = h"
    unfolding S_def E_def F_def mask_1 mask_5 mask_10
  proof (rule bit_eqI)
    fix n
    assume "possible_bit TYPE(16 word) n"
    then have n: "n < 16" by (simp add: possible_bit_word)
    show "bit (ucast (push_bit 15 (drop_bit 15 (ucast h) AND mask 1)
                      OR push_bit 10 (drop_bit 10 (ucast h) AND mask 5)
                      OR (ucast h AND mask 10) :: 32 word) :: 16 word) n
            \<longleftrightarrow> bit h n"
    proof (cases "n = 15")
      case True
      then show ?thesis by (simp add: bit_simps bit_consts)
    next
      case False
      with n have "n < 15" by simp
      then show ?thesis by (auto simp: bit_simps bit_consts)
    qed
  qed
  have Fhi: "bit F j \<Longrightarrow> j < 10" for j
    unfolding F_def mask_10 by (simp add: bit_simps)
  have "E AND mask 5 = E"
    unfolding E_def mask_5 by (simp add: and.assoc)
  then have "uint E < 2 ^ 5" by (simp only: mask_eq_iff)
  then have Ele: "uint E < 32" by simp
  have Eint: "E = word_of_int (uint E)" by simp
  have unfold: "cstruct_half_to_float False h =
      (if E = 0 then
         (if F = 0 then Some (push_bit 31 S)
          else case half_normalize F E of
                 None \<Rightarrow> None
               | Some (frac1, expo1) \<Rightarrow>
                   Some (push_bit 31 S OR push_bit 23 (expo1 + 1 + (127 - 15))
                         OR push_bit 13 (frac1 AND 0x3FF)))
       else if E = 0x1F then Some (push_bit 31 S OR push_bit 23 0xFF OR push_bit 13 F)
       else Some (push_bit 31 S OR push_bit 23 (E + (127 - 15)) OR push_bit 13 F))"
    by (simp add: cstruct_half_to_float_def Let_def S_def E_def F_def split: option.splits)
  consider (zero) "E = 0" "F = 0" | (sub) "E = 0" "F \<noteq> 0" | (inf) "E = 0x1F"
    | (normal) "E \<noteq> 0" "E \<noteq> 0x1F" by blast
  then show ?thesis
  proof cases
    case zero
    have x: "(0 :: 32 word) AND 0xFF = 0" "(0 :: 32 word) AND 0x3FF = 0" by simp_all
    let ?v = "push_bit 31 S OR push_bit 23 0 OR push_bit 13 (0 :: 32 word)"
    note pf = pattern_fields(1,2) [OF S x]
    have "cstruct_float_to_half False ?v = ucast (push_bit 15 S)"
      by (simp only: float_to_half_underflow [OF pf(2)] pf(1))
    moreover have "?v = push_bit 31 S" by simp
    moreover have "cstruct_half_to_float False h = Some (push_bit 31 S)"
      using zero by (simp add: unfold)
    moreover have "ucast (push_bit 15 S) = h"
      using fields zero by simp
    ultimately show ?thesis by (simp only:) blast
  next
    case inf
    have x: "(0xFF :: 32 word) AND 0xFF = 0xFF" by simp
    let ?v = "push_bit 31 S OR push_bit 23 0xFF OR push_bit 13 F"
    note pf = pattern_fields(1,2,3) [OF S x F]
    have "cstruct_float_to_half False ?v = ucast (push_bit 15 S OR 0x7C00 OR F)"
      by (simp only: float_to_half_inf_nan [OF pf(2)] pf(1) pf(3))
    moreover have "cstruct_half_to_float False h = Some ?v"
      using inf by (simp add: unfold)
    moreover have "ucast (push_bit 15 S OR 0x7C00 OR F) = h"
      using fields inf by simp
    ultimately show ?thesis by (simp only:) blast
  next
    case normal
    let ?e = "uint E"
    from normal(1) have pos: "0 < ?e" by (simp add: word_neq_0_conv word_less_def)
    have "?e \<noteq> 31"
    proof
      assume "?e = 31"
      then have "word_of_int ?e = (word_of_int 31 :: 32 word)" by (simp only:)
      then have "E = 0x1F" by simp
      with normal(2) show False by simp
    qed
    with Ele have lt: "?e < 0x1F" by simp
    have X: "E + 112 = word_of_int (?e + 112)" by simp
    have x: "(E + 112) AND 0xFF = E + 112"
      unfolding X using pos lt by (intro small_word) simp_all
    let ?v = "push_bit 31 S OR push_bit 23 (E + 112) OR push_bit 13 F"
    note pf = pattern_fields(1,2,3) [OF S x F]
    have ex: "drop_bit 23 ?v AND 0xFF = word_of_int ?e + 112"
      using pf(2) by simp
    have "cstruct_float_to_half False ?v
            = ucast (push_bit 15 S OR push_bit 10 (word_of_int ?e) OR F)"
      by (simp only: float_to_half_normal [OF ex pos lt] pf(1) pf(3))
    moreover have "word_of_int ?e = E" by simp
    moreover have "cstruct_half_to_float False h = Some ?v"
      using normal by (simp add: unfold)
    ultimately show ?thesis using fields by (simp only:) blast
  next
    case sub
    from highest_bit [OF sub(2)]
    obtain p where p: "bit F p" and top: "\<And>j. p < j \<Longrightarrow> \<not> bit F j"
      by blast
    from Fhi [OF p] have p10: "p < 10" .
    define k where "k = 10 - p"
    from p10 have k: "1 \<le> k" "k \<le> 10" and pk: "10 - k = p" by (simp_all add: k_def)
    have norm: "half_normalize F 0 = Some (push_bit k F, 0 - of_nat k)"
      using k(2) p top by (intro half_normalize_result) (simp_all add: pk)
    let ?G = "push_bit k F AND 0x3FF"
    let ?X = "word_of_int (1 - int k) + 112 :: 32 word"
    have X: "?X = word_of_int (113 - int k)" by simp
    have x: "?X AND 0xFF = ?X"
      unfolding X using k by (intro small_word) simp_all
    have g: "?G AND 0x3FF = ?G" by (simp add: and.assoc)
    note pf = pattern_fields [OF S x g]
    let ?v = "push_bit 31 S OR push_bit 23 ?X OR push_bit 13 ?G"
    have dec: "cstruct_half_to_float False h = Some ?v"
      using sub by (simp add: unfold norm)
    from float_to_half_subnormal [OF pf(2) k]
    have "cstruct_float_to_half False ?v
            = ucast (push_bit 15 S
                     OR drop_bit 13 (drop_bit k (push_bit 13 ?G OR 0x800000) + 0x1000))"
      by (simp only: pf(1) pf(4))
    also have "drop_bit 13 (drop_bit k (push_bit 13 ?G OR 0x800000) + 0x1000) = F"
      using k p top by (intro subnormal_mantissa) (simp_all add: pk)
    also have "ucast (push_bit 15 S OR F) = h"
      using fields sub(1) by simp
    finally show ?thesis using dec by blast
  qed
qed

text \<open>The decoder returns for every half, on either host.\<close>

lemma half_to_float_host:
  "cstruct_half_to_float be h
     = map_option (\<lambda>u. if be then bswap32 u else u) (cstruct_half_to_float False h)"
  by (simp add: cstruct_half_to_float_def Let_def split: option.splits)

lemma half_to_float_total: "\<exists>v. cstruct_half_to_float be h = Some v"
proof -
  from half_roundtrip [of h] obtain v where "cstruct_half_to_float False h = Some v" by blast
  then show ?thesis by (subst half_to_float_host) simp
qed

text \<open>
  On a little-endian host every binary32 value that is the decoding of a half, that is
  every value representable in binary16, round-trips through the \<open>e\<close> format.
\<close>

lemma roundtrip_float16:
  assumes "cstruct_half_to_float False h = Some v"
    and "fmt \<in> single_formats CHR ''e''"
    and "length d = 4" and "2 \<le> length mem" and "2 \<le> dstlen"
  shows "\<exists>mem1. cstruct_pack False mem dstlen fmt [Float_arg v] = Inr (mem1, Some 2) \<and>
           cstruct_unpack False mem1 dstlen fmt [Ptr_arg d]
             = Inr ([Ptr_arg (obj_repr False 4 v)], Some 2)"
proof -
  from half_roundtrip [of h] assms(1) have enc: "cstruct_float_to_half False v = h" by auto
  have val: "obj_value False (le_bytes 2 h) = h" "obj_value False (rev (rev (le_bytes 2 h))) = h"
    using obj_value_obj_repr [of 2 False h] by (simp_all add: obj_repr_def)
  let ?w = "if hd fmt = CHR ''>'' then rev (le_bytes 2 h) else le_bytes 2 h"
  have len: "Suc (Suc 0) = (2 :: nat)" by simp
  have p: "cstruct_pack False mem dstlen fmt [Float_arg v] = Inr (?w @ drop (length ?w) mem, Some 2)"
    using assms(2-) enc by (auto simp: single_formats_def pack_eval not_less len Let_def)
  have ld: "cstruct_load_le False [0, 0] 0 (le_bytes 2 h @ drop 2 mem) 0 2 = Inr (le_bytes 2 h)"
    "cstruct_load_be False [0, 0] 0 (rev (le_bytes 2 h) @ drop 2 mem) 0 2 = Inr (le_bytes 2 h)"
    by (simp_all add: cstruct_load_le_eq cstruct_load_be_eq)
  have as: "assign d 0 (obj_repr False 4 v) = Inr (obj_repr False 4 v)"
    using assms(3) by (simp add: assign_def)
  have u: "cstruct_unpack False (?w @ drop (length ?w) mem) dstlen fmt [Ptr_arg d]
             = Inr ([Ptr_arg (obj_repr False 4 v)], Some 2)"
    using assms(2-)
    by (auto simp: single_formats_def cstruct_unpack_def cstruct_unpack_v_def unpack_loop_Cons
          parse_defs unpack_token_def unpack_numeric_def not_less len
          cstruct_unpack_float16_le_def cstruct_unpack_float16_be_def ld val assms(1) as
          simp del: le_bytes_numeral)
  from p u show ?thesis by blast
qed

end
